theory Spec2Isabelle
  imports Main "HOL-Library.Word"
begin

section \<open>The locked-memory pool allocator (mlock\_allocator)\<close>

text \<open>
  A shallow embedding of \<^verbatim>\<open>mlock_allocator\<close>: the pool membership test, the alignment
  padding, best-fit \<^verbatim>\<open>allocate\<close> and coalescing \<^verbatim>\<open>deallocate\<close> over the free list.
  \<^verbatim>\<open>size_t\<close> is a 64-bit word, so every sum and product wraps as in the source.
  The mutex is not modelled: every call runs alone, start to end.
\<close>

subsection \<open>Data\<close>

type_synonym size_t = "64 word"
type_synonym byte = "8 word"

text \<open>An entry of \<^verbatim>\<open>m_freelist\<close>: \<^verbatim>\<open>std::pair<size_t, size_t>\<close>, (offset, length).\<close>

type_synonym extent = "size_t \<times> size_t"

text \<open>
  The object's three members, and the bytes of the address space the pool pointer refers
  to. \<^verbatim>\<open>m_pool\<close> is the pool's base address, 0 for \<^verbatim>\<open>nullptr\<close>.
\<close>

record mlock_allocator =
  m_poolsize :: size_t
  m_pool :: size_t
  m_freelist :: "extent list"
  mem :: "size_t \<Rightarrow> byte"

text \<open>
  What ends a call without a return value: the division \<^verbatim>\<open>n / elem_size\<close> with a
  zero divisor, a failed \<^verbatim>\<open>BOTAN_ASSERT\<close>, and a dereference of \<^verbatim>\<open>m_freelist.end()\<close>.
\<close>

datatype error = Division_By_Zero | Assertion_Failure | Invalid_Iterator

subsection \<open>Helpers\<close>

definition BOTAN_ASSERT :: "bool \<Rightarrow> (error + 'a) \<Rightarrow> (error + 'a)" where
  \<comment> \<open>Modelled from the spec: the macro of \<^verbatim>\<open>botan/internal/assert.h\<close>, which is not among the
      sources. A false condition aborts ("Invariant violation: Abort"); a true one goes on.\<close>
  "BOTAN_ASSERT cond rest = (if cond then rest else Inl Assertion_Failure)"

text \<open>
  An aborted call is recorded with the allocator as it is at that moment, so that what the
  call had already written can be stated.
\<close>

type_synonym abort = "error \<times> mlock_allocator"

fun aborted_at :: "mlock_allocator \<Rightarrow> error + 'a \<Rightarrow> abort + 'a" where
  "aborted_at s (Inl e) = Inl (e, s)"
| "aborted_at s (Inr v) = Inr v"

definition clear_mem :: "(size_t \<Rightarrow> byte) \<Rightarrow> size_t \<Rightarrow> size_t \<Rightarrow> (size_t \<Rightarrow> byte)" where
  \<comment> \<open>Modelled from the spec: the zeroing primitive of \<^verbatim>\<open>botan/mem_ops.h\<close>, which is not
      among the sources: given (address, length) it writes zero to the bytes
      \<^verbatim>\<open>ptr[0] .. ptr[n-1]\<close> and to no other.\<close>
  "clear_mem m ptr n = (\<lambda>a. if a - ptr < n then 0 else m a)"

definition MLOCK_UPPER_BOUND :: size_t where
  "MLOCK_UPPER_BOUND = 512 * 1024"

definition mlock_limit :: "size_t \<Rightarrow> size_t" where
  \<comment> \<open>\<^verbatim>\<open>rlim_cur\<close> is the soft limit the operating system reports after the attempt to raise it.\<close>
  "mlock_limit rlim_cur = min rlim_cur MLOCK_UPPER_BOUND"

definition ptr_in_pool :: "size_t \<Rightarrow> size_t \<Rightarrow> size_t \<Rightarrow> size_t \<Rightarrow> error + bool" where
  "ptr_in_pool pool poolsize buf bufsize =
     (if buf < pool \<or> buf \<ge> pool + poolsize then Inr False
      else BOTAN_ASSERT (buf + bufsize \<le> pool + poolsize) (Inr True))"

definition padding_for_alignment :: "size_t \<Rightarrow> size_t \<Rightarrow> size_t" where
  \<comment> \<open>Called by \<^verbatim>\<open>allocate\<close> only, after its division by \<^verbatim>\<open>elem_size\<close>: the alignment is not 0 here.\<close>
  "padding_for_alignment offset desired_alignment =
     (let md = offset mod desired_alignment
      in if md = 0 then 0 else desired_alignment - md)"

text \<open>\<^verbatim>\<open>std::vector::erase\<close> and \<^verbatim>\<open>std::vector::insert\<close> at a position.\<close>

definition erase :: "'a list \<Rightarrow> nat \<Rightarrow> 'a list" where
  "erase xs i = take i xs @ drop (Suc i) xs"

definition insert_at :: "'a list \<Rightarrow> nat \<Rightarrow> 'a \<Rightarrow> 'a list" where
  "insert_at xs i x = take i xs @ x # drop i xs"

text \<open>
  \<^verbatim>\<open>std::lower_bound\<close> with the comparison on \<^verbatim>\<open>first\<close>: on a range sorted by offset, the
  position of the first extent whose offset is not below \<^verbatim>\<open>start\<close> (the length of the
  list stands for \<^verbatim>\<open>end()\<close>).
\<close>

definition lower_bound :: "extent list \<Rightarrow> size_t \<Rightarrow> nat" where
  "lower_bound fl start = length (takeWhile (\<lambda>x. fst x < start) fl)"

subsection \<open>allocate\<close>

text \<open>
  The \<^verbatim>\<open>for\<close> loop of \<^verbatim>\<open>allocate\<close> over the free list. \<^verbatim>\<open>i\<close> is the position of the
  iterator, \<^verbatim>\<open>best_fit\<close> the position kept so far (\<^verbatim>\<open>None\<close> for \<^verbatim>\<open>end()\<close>). The result is
  \<^verbatim>\<open>Inl i\<close> when the loop leaves through the perfect fit at \<^verbatim>\<open>i\<close>, and \<^verbatim>\<open>Inr best_fit\<close>
  when it runs to the end.
\<close>

fun scan_freelist ::
  "size_t \<Rightarrow> size_t \<Rightarrow> extent list \<Rightarrow> nat \<Rightarrow> nat option \<Rightarrow> extent list \<Rightarrow> nat + nat option"
where
  "scan_freelist n alignment fl i best_fit [] = Inr best_fit"
| "scan_freelist n alignment fl i best_fit (x # rest) =
     (if snd x = n \<and> fst x mod alignment = 0 then Inl i
      else if snd x \<ge> n + padding_for_alignment (fst x) alignment \<and>
              (case best_fit of None \<Rightarrow> True | Some b \<Rightarrow> snd (fl ! b) > snd x)
           then scan_freelist n alignment fl (Suc i) (Some i) rest
           else scan_freelist n alignment fl (Suc i) best_fit rest)"

text \<open>The free list after the request is carved from the front of the extent at \<^verbatim>\<open>b\<close>.\<close>

definition carve :: "extent list \<Rightarrow> nat \<Rightarrow> size_t \<Rightarrow> size_t \<Rightarrow> extent list" where
  "carve fl b n alignment_padding =
     (let offset = fst (fl ! b);
          first' = offset + (n + alignment_padding);
          second' = snd (fl ! b) - (n + alignment_padding)
      in if alignment_padding \<noteq> 0
         then (if second' = 0 then fl[b := (offset, alignment_padding)]
               else insert_at (fl[b := (first', second')]) b (offset, alignment_padding))
         else fl[b := (first', second')])"

text \<open>
  The result is the returned pointer (\<^verbatim>\<open>None\<close> for \<^verbatim>\<open>nullptr\<close>) and the allocator after
  the call, or the error that ended the call and the allocator at that moment: both
  assertions come after the writes to the free list and to the memory.
\<close>

definition allocate ::
  "mlock_allocator \<Rightarrow> size_t \<Rightarrow> size_t \<Rightarrow> abort + (size_t option \<times> mlock_allocator)"
where
  "allocate s num_elems elem_size =
     (if m_pool s = 0 then Inr (None, s)
      else
        let n = num_elems * elem_size;
            alignment = elem_size
        in if elem_size = 0 then Inl (Division_By_Zero, s)
           else if n div elem_size \<noteq> num_elems then Inr (None, s)
           else if n \<ge> m_poolsize s then Inr (None, s)
           else
             (case scan_freelist n alignment (m_freelist s) 0 None (m_freelist s) of
                Inl i \<Rightarrow>
                  let offset = fst (m_freelist s ! i);
                      s' = s\<lparr>m_freelist := erase (m_freelist s) i,
                             mem := clear_mem (mem s) (m_pool s + offset) n\<rparr>
                  in aborted_at s'
                       (BOTAN_ASSERT ((m_pool s + offset) mod alignment = 0)
                          (Inr (Some (m_pool s + offset), s')))
              | Inr None \<Rightarrow> Inr (None, s)
              | Inr (Some b) \<Rightarrow>
                  let offset = fst (m_freelist s ! b);
                      alignment_padding = padding_for_alignment offset alignment;
                      s' = s\<lparr>m_freelist := carve (m_freelist s) b n alignment_padding,
                             mem := clear_mem (mem s) (m_pool s + offset + alignment_padding) n\<rparr>
                  in aborted_at s'
                       (BOTAN_ASSERT ((m_pool s + offset + alignment_padding) mod alignment = 0)
                          (Inr (Some (m_pool s + offset + alignment_padding), s')))))"

subsection \<open>deallocate\<close>

text \<open>
  The three merge steps of \<^verbatim>\<open>deallocate\<close> on the free list, from the position \<^verbatim>\<open>i\<close>
  that \<^verbatim>\<open>std::lower_bound\<close> returned. \<^verbatim>\<open>n\<close> is set to 0 by a merge, as in the source.
\<close>

definition merge_later :: "extent list \<Rightarrow> nat \<Rightarrow> size_t \<Rightarrow> size_t \<Rightarrow> extent list \<times> size_t" where
  "merge_later fl i start n =
     (if i \<noteq> length fl \<and> start + n = fst (fl ! i)
      then (fl[i := (start, snd (fl ! i) + n)], 0)
      else (fl, n))"

definition merge_previous ::
  "extent list \<Rightarrow> nat \<Rightarrow> size_t \<Rightarrow> size_t \<Rightarrow> error + (extent list \<times> size_t)"
where
  "merge_previous fl i start n =
     (if i \<noteq> 0 then
        let prev = i - 1 in
        if fst (fl ! prev) + snd (fl ! prev) = start then
          if n \<noteq> 0 then Inr (fl[prev := (fst (fl ! prev), snd (fl ! prev) + n)], 0)
          else if i = length fl then Inl Invalid_Iterator
          else Inr (erase (fl[prev := (fst (fl ! prev), snd (fl ! prev) + snd (fl ! i))]) i, n)
        else Inr (fl, n)
      else Inr (fl, n))"

text \<open>
  The work of \<^verbatim>\<open>deallocate\<close> on the free list, under the mutex: the search for the
  position, the two merges, and the insertion when no merge took place.
\<close>

definition coalesce :: "extent list \<Rightarrow> size_t \<Rightarrow> size_t \<Rightarrow> error + extent list" where
  "coalesce fl start n =
     (let i = lower_bound fl start;
          (fl1, n1) = merge_later fl i start n
      in case merge_previous fl1 i start n1 of
           Inl e \<Rightarrow> Inl e
         | Inr (fl2, n2) \<Rightarrow> Inr (if n2 \<noteq> 0 then insert_at fl2 i (start, n2) else fl2))"

text \<open>
  Whatever ends \<^verbatim>\<open>deallocate\<close> without a return value does so before the free list is
  written: the allocator at that moment is the one before the call.
\<close>

definition deallocate ::
  "mlock_allocator \<Rightarrow> size_t \<Rightarrow> size_t \<Rightarrow> size_t \<Rightarrow> abort + (bool \<times> mlock_allocator)"
where
  "deallocate s p num_elems elem_size =
     (if m_pool s = 0 then Inr (False, s)
      else
        let n = num_elems * elem_size
        in if elem_size = 0 then Inl (Division_By_Zero, s)
           else aborted_at s
             (BOTAN_ASSERT (n div elem_size = num_elems)
                (case ptr_in_pool (m_pool s) (m_poolsize s) p n of
                   Inl e \<Rightarrow> Inl e
                 | Inr False \<Rightarrow> Inr (False, s)
                 | Inr True \<Rightarrow>
                     (case coalesce (m_freelist s) (p - m_pool s) n of
                        Inl e \<Rightarrow> Inl e
                      | Inr fl' \<Rightarrow> Inr (True, s\<lparr>m_freelist := fl'\<rparr>)))))"

subsection \<open>Construction\<close>

text \<open>
  The constructor, after the system calls: \<^verbatim>\<open>rlim_cur\<close> is the lockable-memory limit,
  \<^verbatim>\<open>mapped\<close> the address \<^verbatim>\<open>mmap\<close> returned (\<^verbatim>\<open>None\<close> for \<^verbatim>\<open>MAP_FAILED\<close>), \<^verbatim>\<open>locked\<close>
  whether \<^verbatim>\<open>mlock\<close> succeeded, \<^verbatim>\<open>m\<close> the memory before. A \<^verbatim>\<open>None\<close> result is the
  \<^verbatim>\<open>std::runtime_error\<close> thrown.
\<close>

definition construct ::
  "size_t \<Rightarrow> size_t option \<Rightarrow> bool \<Rightarrow> (size_t \<Rightarrow> byte) \<Rightarrow> mlock_allocator option"
where
  "construct rlim_cur mapped locked m =
     (let poolsize = mlock_limit rlim_cur in
      if poolsize \<noteq> 0 then
        (case mapped of
           None \<Rightarrow> None
         | Some pool \<Rightarrow>
             if \<not> locked then None
             else Some \<lparr>m_poolsize = poolsize, m_pool = pool,
                        m_freelist = [(0, poolsize)],
                        mem = clear_mem m pool poolsize\<rparr>)
      else Some \<lparr>m_poolsize = poolsize, m_pool = 0, m_freelist = [], mem = m\<rparr>)"

subsection \<open>The choice of an extent, in the words of the specification\<close>

text \<open>
  A perfect fit: \<^verbatim>\<open>len == n\<close> and \<^verbatim>\<open>off % elem_size == 0\<close>.
\<close>

definition perfect_fit :: "size_t \<Rightarrow> size_t \<Rightarrow> extent \<Rightarrow> bool" where
  "perfect_fit n elem_size x = (snd x = n \<and> fst x mod elem_size = 0)"

text \<open>
  \<^verbatim>\<open>padding(o, a) = 0\<close> if \<^verbatim>\<open>o % a == 0\<close>, else \<^verbatim>\<open>a - (o % a)\<close>, and a candidate is an
  extent with \<^verbatim>\<open>len \<ge> n + pad\<close>, both on the unbounded integers.
\<close>

definition padding :: "nat \<Rightarrow> nat \<Rightarrow> nat" where
  "padding off a = (if off mod a = 0 then 0 else a - off mod a)"

definition candidate :: "size_t \<Rightarrow> size_t \<Rightarrow> extent \<Rightarrow> bool" where
  "candidate n elem_size x =
     (unat n + padding (unat (fst x)) (unat elem_size) \<le> unat (snd x))"

text \<open>The first perfect fit in the order of the list.\<close>

definition first_perfect :: "size_t \<Rightarrow> size_t \<Rightarrow> extent list \<Rightarrow> nat \<Rightarrow> bool" where
  "first_perfect n elem_size fl i =
     (i < length fl \<and> perfect_fit n elem_size (fl ! i) \<and>
      list_all (\<lambda>x. \<not> perfect_fit n elem_size x) (take i fl))"

text \<open>
  The candidate of smallest length, the first seen among those of equal length: no
  candidate is shorter, and every candidate before it is longer.
\<close>

definition best_candidate :: "size_t \<Rightarrow> size_t \<Rightarrow> extent list \<Rightarrow> nat \<Rightarrow> bool" where
  "best_candidate n elem_size fl b =
     (b < length fl \<and> candidate n elem_size (fl ! b) \<and>
      list_all (\<lambda>x. candidate n elem_size x \<longrightarrow> snd (fl ! b) \<le> snd x) fl \<and>
      list_all (\<lambda>x. candidate n elem_size x \<longrightarrow> snd (fl ! b) < snd x) (take b fl))"

text \<open>What the loop has kept after the extents \<^verbatim>\<open>pre\<close>.\<close>

definition kept :: "size_t \<Rightarrow> size_t \<Rightarrow> extent list \<Rightarrow> nat option \<Rightarrow> bool" where
  "kept n a pre best =
     (case best of
        None \<Rightarrow> list_all (\<lambda>x. \<not> candidate n a x) pre
      | Some b \<Rightarrow> best_candidate n a pre b)"

subsection \<open>The canonical form of the free list\<close>

text \<open>
  An extent \<^verbatim>\<open>(off, len)\<close> covers the offsets from \<^verbatim>\<open>off\<close> up to, not including,
  \<^verbatim>\<open>off + len\<close>: both ends as natural numbers, so the sum does not wrap.
\<close>

definition ext_lo :: "extent \<Rightarrow> nat" where
  "ext_lo x = unat (fst x)"

definition ext_hi :: "extent \<Rightarrow> nat" where
  "ext_hi x = unat (fst x) + unat (snd x)"

text \<open>\<^verbatim>\<open>x\<close> ends strictly before \<^verbatim>\<open>y\<close> starts: the two neither overlap nor touch.\<close>

definition gap :: "extent \<Rightarrow> extent \<Rightarrow> bool" where
  "gap x y = (ext_hi x < ext_lo y)"

definition disjoint :: "extent \<Rightarrow> extent \<Rightarrow> bool" where
  "disjoint x y = (ext_hi x \<le> ext_lo y \<or> ext_hi y \<le> ext_lo x)"

text \<open>No two consecutive extents are adjacent: \<^verbatim>\<open>offset_i + length_i < offset_{i+1}\<close>.\<close>

fun not_adjacent :: "extent list \<Rightarrow> bool" where
  "not_adjacent (x # y # rest) = (ext_hi x < ext_lo y \<and> not_adjacent (y # rest))"
| "not_adjacent _ = True"

text \<open>
  The canonical form: sorted strictly by offset, pairwise disjoint, no two consecutive
  extents adjacent.
\<close>

definition canonical :: "extent list \<Rightarrow> bool" where
  "canonical fl =
     (sorted_wrt (\<lambda>x y. fst x < fst y) fl \<and> sorted_wrt disjoint fl \<and> not_adjacent fl)"

subsection \<open>Sequences of calls\<close>

text \<open>
  A client that keeps the regions it holds: the address returned by \<^verbatim>\<open>allocate\<close> and the
  total size asked for. A call that is aborted ends the sequence.
\<close>

type_synonym region = "size_t \<times> size_t"

datatype call = Allocate size_t size_t | Deallocate size_t size_t size_t

fun step :: "call \<Rightarrow> mlock_allocator \<times> region list \<Rightarrow> abort + (mlock_allocator \<times> region list)" where
  "step (Allocate num_elems elem_size) (s, live) =
     (case allocate s num_elems elem_size of
        Inl e \<Rightarrow> Inl e
      | Inr (None, s') \<Rightarrow> Inr (s', live)
      | Inr (Some A, s') \<Rightarrow> Inr (s', (A, num_elems * elem_size) # live))"
| "step (Deallocate p num_elems elem_size) (s, live) =
     (case deallocate s p num_elems elem_size of
        Inl e \<Rightarrow> Inl e
      | Inr (b, s') \<Rightarrow> Inr (s', if b then remove1 (p, num_elems * elem_size) live else live))"

fun run :: "call list \<Rightarrow> mlock_allocator \<times> region list \<Rightarrow> abort + (mlock_allocator \<times> region list)" where
  "run [] c = Inr c"
| "run (x # xs) c = (case step x c of Inl e \<Rightarrow> Inl e | Inr c' \<Rightarrow> run xs c')"

text \<open>
  The client keeps to the contract of \<^verbatim>\<open>deallocate\<close>: it asks for at least one byte, and it
  releases only a region it holds, with the size it asked for.
\<close>

fun proper :: "call \<Rightarrow> region list \<Rightarrow> bool" where
  "proper (Allocate num_elems elem_size) live = (num_elems * elem_size \<noteq> 0)"
| "proper (Deallocate p num_elems elem_size) live = ((p, num_elems * elem_size) \<in> set live)"

fun proper_run :: "call list \<Rightarrow> mlock_allocator \<times> region list \<Rightarrow> bool" where
  "proper_run [] c = True"
| "proper_run (x # xs) c =
     (proper x (snd c) \<and> (case step x c of Inl e \<Rightarrow> True | Inr c' \<Rightarrow> proper_run xs c'))"

text \<open>
  The allocator as the constructor leaves it when the pool is enabled: the free list is
  \<^verbatim>\<open>[(0, P)]\<close>, and the mapping does not wrap around the address space.
\<close>

definition fresh :: "mlock_allocator \<Rightarrow> bool" where
  "fresh s = (m_pool s \<noteq> 0 \<and> m_poolsize s \<noteq> 0 \<and> m_poolsize s \<le> MLOCK_UPPER_BOUND \<and>
              unat (m_pool s) + unat (m_poolsize s) < 2 ^ 64 \<and>
              m_freelist s = [(0, m_poolsize s)])"

text \<open>
  The invariant of a sequence of calls: the free extents are separated by gaps, not empty
  and inside the pool; the regions held are not empty, inside the pool, apart from every
  free extent and from each other.
\<close>

definition apart :: "size_t \<Rightarrow> region \<Rightarrow> extent \<Rightarrow> bool" where
  "apart B r x =
     (unat (fst r) + unat (snd r) \<le> unat B + ext_lo x \<or> unat B + ext_hi x \<le> unat (fst r))"

definition regions_apart :: "region \<Rightarrow> region \<Rightarrow> bool" where
  "regions_apart r r' =
     (unat (fst r) + unat (snd r) \<le> unat (fst r') \<or> unat (fst r') + unat (snd r') \<le> unat (fst r))"

definition pool_inv :: "mlock_allocator \<times> region list \<Rightarrow> bool" where
  "pool_inv c =
     (let s = fst c; live = snd c; B = m_pool s; P = m_poolsize s; fl = m_freelist s in
      B \<noteq> 0 \<and> P \<le> MLOCK_UPPER_BOUND \<and> unat B + unat P < 2 ^ 64 \<and>
      sorted_wrt gap fl \<and>
      (\<forall>x \<in> set fl. snd x \<noteq> 0 \<and> ext_hi x \<le> unat P) \<and>
      (\<forall>r \<in> set live. snd r \<noteq> 0 \<and> unat B \<le> unat (fst r) \<and>
          unat (fst r) + unat (snd r) \<le> unat B + unat P \<and> (\<forall>x \<in> set fl. apart B r x)) \<and>
      sorted_wrt regions_apart live)"

text \<open>Three blocks of 100 bytes, released first, last, middle.\<close>

definition three_blocks :: "call list" where
  "three_blocks =
     [Allocate 100 1, Allocate 100 1, Allocate 100 1,
      Deallocate 4096 100 1, Deallocate 4296 100 1, Deallocate 4196 100 1]"

subsection \<open>A pool of 1024 bytes\<close>

text \<open>The allocator the constructor leaves for a limit of 1024 bytes and a mapping at 4096.\<close>

definition example_pool :: mlock_allocator where
  "example_pool =
     \<lparr>m_poolsize = 1024, m_pool = 4096, m_freelist = [(0, 1024)], mem = (\<lambda>_. 0)\<rparr>"

text \<open>The same pool with another free list.\<close>

definition pool_with :: "extent list \<Rightarrow> mlock_allocator" where
  "pool_with fl = example_pool\<lparr>m_freelist := fl\<rparr>"

lemma construct_example: "construct 1024 (Some 4096) True (\<lambda>_. 0) = Some example_pool"
  by (simp add: construct_def example_pool_def mlock_limit_def MLOCK_UPPER_BOUND_def
      clear_mem_def)

section \<open>The size checks\<close>

lemma overflow_detected:
  fixes num_elems elem_size :: size_t
  assumes "2 ^ 64 \<le> unat num_elems * unat elem_size"
  shows "elem_size \<noteq> 0 \<and> (num_elems * elem_size) div elem_size \<noteq> num_elems"
proof
  show "elem_size \<noteq> 0" using assms by (auto simp: unat_eq_zero)
  show "(num_elems * elem_size) div elem_size \<noteq> num_elems"
  proof
    assume eq: "(num_elems * elem_size) div elem_size = num_elems"
    have "unat num_elems = unat (num_elems * elem_size) div unat elem_size"
      using eq by (metis unat_div)
    then have "unat num_elems * unat elem_size \<le> unat (num_elems * elem_size)"
      by simp
    moreover have "unat (num_elems * elem_size) < 2 ^ 64"
      using unsigned_less [of "num_elems * elem_size"] by simp
    ultimately show False using assms by simp
  qed
qed

lemma no_overflow_passes:
  fixes num_elems elem_size :: size_t
  assumes "unat num_elems * unat elem_size < 2 ^ 64" "elem_size \<noteq> 0"
  shows "(num_elems * elem_size) div elem_size = num_elems"
    and "unat (num_elems * elem_size) = unat num_elems * unat elem_size"
proof -
  show u: "unat (num_elems * elem_size) = unat num_elems * unat elem_size"
    using assms(1) by (simp add: unat_mult_lem [THEN iffD1])
  have "unat elem_size \<noteq> 0" using assms(2) by (simp add: unat_eq_zero)
  then have "unat ((num_elems * elem_size) div elem_size) = unat num_elems"
    by (simp add: unat_div u)
  then show "(num_elems * elem_size) div elem_size = num_elems"
    by (rule word_unat_eq_iff [THEN iffD2])
qed

text \<open>
  C9. On an enabled pool, \<^verbatim>\<open>allocate\<close> with \<^verbatim>\<open>elem_size = 0\<close> reaches the overflow guard
  \<^verbatim>\<open>n / elem_size\<close> with a zero divisor, whatever \<^verbatim>\<open>num_elems\<close> is: nothing before the
  guard looks at \<^verbatim>\<open>elem_size\<close>, so the division by zero is reachable from the public
  interface, and the guard has a value only when \<^verbatim>\<open>elem_size > 0\<close>.
\<close>

theorem allocate_zero_elem_size:
  "m_pool s \<noteq> 0 \<Longrightarrow> allocate s num_elems 0 = Inl (Division_By_Zero, s)"
  by (simp add: allocate_def)

theorem allocate_zero_elem_size_witness:
  "m_pool example_pool \<noteq> 0 \<and> allocate example_pool 5 0 = Inl (Division_By_Zero, example_pool)"
  using allocate_zero_elem_size [of example_pool 5] by (simp add: example_pool_def)

text \<open>
  C7. When the product \<^verbatim>\<open>num_elems * elem_size\<close> does not fit a machine word (the
  mathematical product is above \<^verbatim>\<open>2^64 - 1\<close>), \<^verbatim>\<open>allocate\<close> returns \<^verbatim>\<open>nullptr\<close> and the
  allocator, its free list included, is unchanged.
\<close>

theorem allocate_overflow:
  assumes "2 ^ 64 \<le> unat num_elems * unat elem_size"
  shows "allocate s num_elems elem_size = Inr (None, s)"
  using overflow_detected [OF assms] by (simp add: allocate_def Let_def)

theorem allocate_overflow_witness:
  "2 ^ 64 \<le> unat (0xFFFFFFFFFFFFFFFF :: size_t) * unat (2 :: size_t) \<and>
   allocate example_pool 0xFFFFFFFFFFFFFFFF 2 = Inr (None, example_pool)"
proof -
  have h: "2 ^ 64 \<le> unat (0xFFFFFFFFFFFFFFFF :: size_t) * unat (2 :: size_t)" by simp
  show ?thesis using h allocate_overflow [OF h, of example_pool] by simp
qed

text \<open>
  C6. When the product does not overflow and the total \<^verbatim>\<open>n\<close> is at least the pool size
  \<^verbatim>\<open>P\<close>, \<^verbatim>\<open>allocate\<close> returns \<^verbatim>\<open>nullptr\<close>; \<^verbatim>\<open>n = P\<close> is refused as well. An enabled
  pool is not empty (the constructor maps only a pool of size above 0).
\<close>

theorem allocate_oversized:
  assumes "m_pool s \<noteq> 0 \<longrightarrow> m_poolsize s \<noteq> 0"
      and "unat num_elems * unat elem_size < 2 ^ 64"
      and "unat (m_poolsize s) \<le> unat num_elems * unat elem_size"
  shows "allocate s num_elems elem_size = Inr (None, s)"
proof (cases "m_pool s = 0")
  case True
  then show ?thesis by (simp add: allocate_def)
next
  case False
  then have "unat (m_poolsize s) \<noteq> 0" using assms(1) by (simp add: unat_eq_zero)
  then have nz: "elem_size \<noteq> 0" using assms(3) by auto
  have "m_poolsize s \<le> num_elems * elem_size"
    using assms(3) no_overflow_passes(2) [OF assms(2) nz] by (simp add: word_le_nat_alt)
  then show ?thesis
    using nz by (simp add: allocate_def Let_def)
qed

theorem allocate_oversized_witness:
  "m_pool example_pool \<noteq> 0 \<and> m_poolsize example_pool \<noteq> 0 \<and>
   unat (1024 :: size_t) * unat (1 :: size_t) < 2 ^ 64 \<and>
   unat (m_poolsize example_pool) \<le> unat (1024 :: size_t) * unat (1 :: size_t) \<and>
   allocate example_pool 1024 1 = Inr (None, example_pool)"
proof -
  have h1: "m_pool example_pool \<noteq> 0 \<longrightarrow> m_poolsize example_pool \<noteq> 0"
    by (simp add: example_pool_def)
  have h2: "unat (1024 :: size_t) * unat (1 :: size_t) < 2 ^ 64" by simp
  have h3: "unat (m_poolsize example_pool) \<le> unat (1024 :: size_t) * unat (1 :: size_t)"
    by (simp add: example_pool_def)
  show ?thesis using h2 h3 allocate_oversized [OF h1 h2 h3] by (simp add: example_pool_def)
qed

section \<open>The pool membership test\<close>

lemma ptr_in_pool_foreign:
  assumes "unat pool + unat poolsize < 2 ^ 64"
      and "unat buf < unat pool \<or> unat pool + unat poolsize \<le> unat buf"
  shows "ptr_in_pool pool poolsize buf bufsize = Inr False"
proof -
  have "unat (pool + poolsize) = unat pool + unat poolsize"
    using assms(1) by (simp add: unat_add_lem [THEN iffD1])
  then have "buf < pool \<or> pool + poolsize \<le> buf"
    using assms(2) by (simp add: word_less_nat_alt word_le_nat_alt)
  then show ?thesis by (auto simp: ptr_in_pool_def)
qed

lemma ptr_in_pool_overlap:
  assumes "unat pool + unat poolsize < 2 ^ 64"
      and "unat pool \<le> unat buf" "unat buf < unat pool + unat poolsize"
      and "unat pool + unat poolsize < unat buf + unat bufsize" "unat buf + unat bufsize < 2 ^ 64"
  shows "ptr_in_pool pool poolsize buf bufsize = Inl Assertion_Failure"
proof -
  have e: "unat (pool + poolsize) = unat pool + unat poolsize"
    using assms(1) by (simp add: unat_add_lem [THEN iffD1])
  have b: "unat (buf + bufsize) = unat buf + unat bufsize"
    using assms(5) by (simp add: unat_add_lem [THEN iffD1])
  have "\<not> buf < pool" "\<not> pool + poolsize \<le> buf" "\<not> buf + bufsize \<le> pool + poolsize"
    using assms(2,3,4) e b by (simp_all add: word_less_nat_alt word_le_nat_alt)
  then show ?thesis by (simp add: ptr_in_pool_def BOTAN_ASSERT_def)
qed

lemma ptr_in_pool_inside:
  assumes "unat pool + unat poolsize < 2 ^ 64"
      and "unat pool \<le> unat buf" "unat buf + unat bufsize \<le> unat pool + unat poolsize"
      and "unat buf < unat pool + unat poolsize"
  shows "ptr_in_pool pool poolsize buf bufsize = Inr True"
proof -
  have e: "unat (pool + poolsize) = unat pool + unat poolsize"
    using assms(1) by (simp add: unat_add_lem [THEN iffD1])
  have b: "unat (buf + bufsize) = unat buf + unat bufsize"
    using assms(1,3) by (simp add: unat_add_lem [THEN iffD1])
  have "\<not> buf < pool" "\<not> pool + poolsize \<le> buf" "buf + bufsize \<le> pool + poolsize"
    using assms(2,3,4) e b by (simp_all add: word_less_nat_alt word_le_nat_alt)
  then show ?thesis by (simp add: ptr_in_pool_def BOTAN_ASSERT_def)
qed

text \<open>
  C1 (as amended). On an enabled pool, for \<^verbatim>\<open>elem_size > 0\<close> and a product
  \<^verbatim>\<open>n = num_elems * elem_size\<close> that does not overflow: when the address itself lies outside
  \<^verbatim>\<open>[B, B+P)\<close>, \<^verbatim>\<open>deallocate\<close> returns \<^verbatim>\<open>false\<close> and the allocator, its free list
  included, is unchanged; when the address lies inside \<^verbatim>\<open>[B, B+P)\<close> and the end of the
  range, \<^verbatim>\<open>address + n\<close>, lies past \<^verbatim>\<open>B + P\<close> and below \<^verbatim>\<open>2^64\<close> (the sum does not wrap
  around the address space), \<^verbatim>\<open>deallocate\<close> does not return \<^verbatim>\<open>false\<close>: the assertion of
  \<^verbatim>\<open>ptr_in_pool\<close> fails and the call is aborted, with the allocator, its free list
  included, as it was before the call.
\<close>

theorem deallocate_foreign:
  assumes "m_pool s \<noteq> 0" and "unat (m_pool s) + unat (m_poolsize s) < 2 ^ 64"
      and "elem_size \<noteq> 0" and "unat num_elems * unat elem_size < 2 ^ 64"
  shows "(unat p < unat (m_pool s) \<or> unat (m_pool s) + unat (m_poolsize s) \<le> unat p
            \<longrightarrow> deallocate s p num_elems elem_size = Inr (False, s)) \<and>
         (unat (m_pool s) \<le> unat p \<and> unat p < unat (m_pool s) + unat (m_poolsize s) \<and>
          unat (m_pool s) + unat (m_poolsize s) < unat p + unat num_elems * unat elem_size \<and>
          unat p + unat num_elems * unat elem_size < 2 ^ 64
            \<longrightarrow> deallocate s p num_elems elem_size = Inl (Assertion_Failure, s))"
proof -
  note nov = no_overflow_passes [OF assms(4,3)]
  show ?thesis
  proof (intro conjI impI)
    assume "unat p < unat (m_pool s) \<or> unat (m_pool s) + unat (m_poolsize s) \<le> unat p"
    then have "ptr_in_pool (m_pool s) (m_poolsize s) p (num_elems * elem_size) = Inr False"
      by (rule ptr_in_pool_foreign [OF assms(2)])
    then show "deallocate s p num_elems elem_size = Inr (False, s)"
      using assms(1,3) nov(1) by (simp add: deallocate_def Let_def BOTAN_ASSERT_def)
  next
    assume "unat (m_pool s) \<le> unat p \<and> unat p < unat (m_pool s) + unat (m_poolsize s) \<and>
          unat (m_pool s) + unat (m_poolsize s) < unat p + unat num_elems * unat elem_size \<and>
          unat p + unat num_elems * unat elem_size < 2 ^ 64"
    then have "ptr_in_pool (m_pool s) (m_poolsize s) p (num_elems * elem_size) = Inl Assertion_Failure"
      using ptr_in_pool_overlap [OF assms(2), of p "num_elems * elem_size"] nov(2) by simp
    then show "deallocate s p num_elems elem_size = Inl (Assertion_Failure, s)"
      using assms(1,3) nov(1) by (simp add: deallocate_def Let_def BOTAN_ASSERT_def)
  qed
qed

theorem deallocate_foreign_witness:
  "deallocate example_pool 100 8 1 = Inr (False, example_pool) \<and>
   deallocate example_pool 6000 8 1 = Inr (False, example_pool) \<and>
   deallocate example_pool 5119 2 1 = Inl (Assertion_Failure, example_pool)"
proof -
  have h: "m_pool example_pool \<noteq> 0"
    "unat (m_pool example_pool) + unat (m_poolsize example_pool) < 2 ^ 64"
    by (simp_all add: example_pool_def)
  have e: "m_pool example_pool = 4096" "m_poolsize example_pool = 1024"
    by (simp_all add: example_pool_def)
  show ?thesis
    using deallocate_foreign [OF h, of 1 8 100] deallocate_foreign [OF h, of 1 8 6000]
      deallocate_foreign [OF h, of 1 2 5119]
    by (simp add: e)
qed

text \<open>
  The claim as first stated fails: the range \<^verbatim>\<open>[5119, 5121)\<close> starts inside the pool
  \<^verbatim>\<open>[4096, 5120)\<close> and is not contained in it, and \<^verbatim>\<open>deallocate\<close> does not return
  \<^verbatim>\<open>false\<close> there.
\<close>

theorem deallocate_partial_overlap_counterexample:
  "unat (m_pool example_pool) \<le> unat (5119 :: size_t) \<and>
   unat (m_pool example_pool) + unat (m_poolsize example_pool) < unat (5119 :: size_t) + unat (2 * 1 :: size_t) \<and>
   deallocate example_pool 5119 2 1 = Inl (Assertion_Failure, example_pool) \<and>
   deallocate example_pool 5119 2 1 \<noteq> Inr (False, example_pool)"
  by (simp add: example_pool_def deallocate_def ptr_in_pool_def BOTAN_ASSERT_def)

text \<open>
  The amended statement leaves out a range whose end wraps around the address space: the
  assertion compares the wrapped sum, which can lie below \<^verbatim>\<open>B + P\<close>, and the call then goes
  on to the free list.
\<close>

lemma deallocate_wrapped_range:
  "deallocate (pool_with [(0, 100)]) 5000 0xFFFFFFFFFFFFFFFF 1 =
     Inr (True, pool_with [(0, 100), (904, 0xFFFFFFFFFFFFFFFF)])"
  by (simp add: pool_with_def example_pool_def deallocate_def ptr_in_pool_def BOTAN_ASSERT_def
      coalesce_def lower_bound_def merge_later_def merge_previous_def insert_at_def)

text \<open>No call of \<^verbatim>\<open>deallocate\<close> that is aborted has changed the allocator.\<close>

lemma deallocate_abort_unchanged:
  "deallocate s p num_elems elem_size = Inl (e, s') \<Longrightarrow> s' = s"
  by (auto simp: deallocate_def Let_def BOTAN_ASSERT_def
      split: if_splits sum.splits bool.splits)

section \<open>Failing calls and the free list\<close>

text \<open>
  A call of \<^verbatim>\<open>allocate\<close> that returns \<^verbatim>\<open>nullptr\<close> and a call of \<^verbatim>\<open>deallocate\<close> that
  returns \<^verbatim>\<open>false\<close> leave the allocator, its free list included, unchanged: no path
  that returns \<^verbatim>\<open>nullptr\<close> or \<^verbatim>\<open>false\<close> writes to the free list.
\<close>

lemma failure_atomic:
  "(allocate s num_elems elem_size = Inr (None, s') \<longrightarrow> s' = s) \<and>
   (deallocate s p num_elems elem_size = Inr (False, s'') \<longrightarrow> s'' = s)"
proof
  show "allocate s num_elems elem_size = Inr (None, s') \<longrightarrow> s' = s"
    by (auto simp: allocate_def Let_def BOTAN_ASSERT_def
        split: if_splits sum.splits option.splits)
  show "deallocate s p num_elems elem_size = Inr (False, s'') \<longrightarrow> s'' = s"
    by (auto simp: deallocate_def Let_def BOTAN_ASSERT_def
        split: if_splits sum.splits bool.splits prod.splits)
qed

lemma failure_atomic_examples:
  "allocate (pool_with [(0, 8)]) 16 1 = Inr (None, pool_with [(0, 8)]) \<and>
   deallocate (pool_with [(0, 8)]) 6000 16 1 = Inr (False, pool_with [(0, 8)])"
proof -
  let ?s = "pool_with [(0, 8)]"
  have a: "allocate ?s 16 1 = Inr (None, snd (projr (allocate ?s 16 1)))"
    by (simp add: allocate_def pool_with_def example_pool_def padding_for_alignment_def)
  have d: "deallocate ?s 6000 16 1 = Inr (False, snd (projr (deallocate ?s 6000 16 1)))"
    by (simp add: deallocate_def pool_with_def example_pool_def ptr_in_pool_def
        BOTAN_ASSERT_def)
  show ?thesis
    using a d failure_atomic [of ?s 16 1 "snd (projr (allocate ?s 16 1))" 6000
        "snd (projr (deallocate ?s 6000 16 1))"]
    by simp
qed

text \<open>
  C8. A call of \<^verbatim>\<open>allocate\<close> can fail after it has written the free list. In the fresh
  pool at \<^verbatim>\<open>B = 4096\<close>, \<^verbatim>\<open>allocate(2, 3)\<close> carves 6 bytes from the front of \<^verbatim>\<open>(0, 1024)\<close>
  and clears them, and then its alignment assertion fails: the call returns neither an
  address nor \<^verbatim>\<open>nullptr\<close>, and the free list is \<^verbatim>\<open>[(6, 1018)]\<close>, not the list before the
  call. With the perfect fit \<^verbatim>\<open>(0, 6)\<close> the extent is erased before the same failure.
\<close>

theorem allocate_fails_after_write:
  "allocate example_pool 2 3 =
     Inl (Assertion_Failure,
          pool_with [(6, 1018)]\<lparr>mem := clear_mem (mem example_pool) 4096 6\<rparr>) \<and>
   m_freelist (pool_with [(6, 1018)]\<lparr>mem := clear_mem (mem example_pool) 4096 6\<rparr>) \<noteq>
     m_freelist example_pool \<and>
   allocate (pool_with [(0, 6), (8, 1016)]) 2 3 =
     Inl (Assertion_Failure,
          pool_with [(8, 1016)]\<lparr>mem := clear_mem (mem example_pool) 4096 6\<rparr>)"
  by (simp add: pool_with_def example_pool_def allocate_def padding_for_alignment_def
      BOTAN_ASSERT_def erase_def carve_def)

section \<open>Releasing zero bytes\<close>

lemma lower_bound_le: "lower_bound fl start \<le> length fl"
  by (simp add: lower_bound_def length_takeWhile_le)

text \<open>
  C10 (as amended). A call of \<^verbatim>\<open>deallocate\<close> with \<^verbatim>\<open>num_elems = 0\<close> (total size 0) and an
  address strictly inside the pool, at an offset that is no free extent's offset and no
  free extent's end, returns \<^verbatim>\<open>true\<close> and leaves the allocator unchanged: the insertion is
  guarded by \<^verbatim>\<open>n != 0\<close>, so no extent of length 0 enters the free list.
\<close>

theorem deallocate_zero_size:
  assumes "m_pool s \<noteq> 0" and "unat (m_pool s) + unat (m_poolsize s) < 2 ^ 64"
      and "elem_size \<noteq> 0"
      and "unat (m_pool s) < unat p" and "unat p < unat (m_pool s) + unat (m_poolsize s)"
      and "\<forall>(off, len) \<in> set (m_freelist s). off \<noteq> p - m_pool s \<and> off + len \<noteq> p - m_pool s"
  shows "deallocate s p 0 elem_size = Inr (True, s)"
proof -
  let ?fl = "m_freelist s" and ?start = "p - m_pool s"
  let ?i = "lower_bound ?fl ?start"
  have pin: "ptr_in_pool (m_pool s) (m_poolsize s) p 0 = Inr True"
    using assms(4,5) by (intro ptr_in_pool_inside [OF assms(2)]) simp_all
  have a: "\<And>k. k < length ?fl \<Longrightarrow>
      fst (?fl ! k) \<noteq> ?start \<and> fst (?fl ! k) + snd (?fl ! k) \<noteq> ?start"
    using assms(6) nth_mem by fastforce
  have ml: "merge_later ?fl ?i ?start 0 = (?fl, 0)"
    using a [of ?i] lower_bound_le [of ?fl ?start] by (auto simp: merge_later_def)
  have mp: "merge_previous ?fl ?i ?start 0 = Inr (?fl, 0)"
    using a [of "?i - 1"] lower_bound_le [of ?fl ?start]
    by (auto simp: merge_previous_def Let_def)
  show ?thesis
    using assms(1,3) pin ml mp
    by (simp add: deallocate_def coalesce_def Let_def BOTAN_ASSERT_def)
qed

theorem deallocate_zero_size_witness:
  "deallocate (pool_with [(16, 1008)]) 4101 0 1 = Inr (True, pool_with [(16, 1008)])"
proof -
  let ?s = "pool_with [(16, 1008)]"
  have e: "m_pool ?s = 4096" "m_poolsize ?s = 1024" "m_freelist ?s = [(16, 1008)]"
    by (simp_all add: pool_with_def example_pool_def)
  have h: "m_pool ?s \<noteq> 0" "unat (m_pool ?s) + unat (m_poolsize ?s) < 2 ^ 64" "(1 :: size_t) \<noteq> 0"
    "unat (m_pool ?s) < unat (4101 :: size_t)" "unat (4101 :: size_t) < unat (m_pool ?s) + unat (m_poolsize ?s)"
    "\<forall>(off, len) \<in> set (m_freelist ?s). off \<noteq> 4101 - m_pool ?s \<and> off + len \<noteq> 4101 - m_pool ?s"
    by (simp_all add: e)
  show ?thesis using deallocate_zero_size [OF h] .
qed

text \<open>
  The claim as first stated fails: at offset 8, between the extents \<^verbatim>\<open>(0, 4)\<close> and
  \<^verbatim>\<open>(16, 1008)\<close>, releasing zero bytes inserts no extent \<^verbatim>\<open>(8, 0)\<close>.
\<close>

theorem deallocate_zero_size_counterexample:
  "deallocate (pool_with [(0, 4), (16, 1008)]) 4104 0 8 =
     Inr (True, pool_with [(0, 4), (16, 1008)]) \<and>
   pool_with [(0, 4), (16, 1008)] \<noteq> pool_with [(0, 4), (8, 0), (16, 1008)]"
  by (simp add: deallocate_def coalesce_def pool_with_def example_pool_def ptr_in_pool_def
      BOTAN_ASSERT_def lower_bound_def merge_later_def merge_previous_def)

section \<open>The loop over the free list\<close>

lemma unat_padding:
  assumes "a \<noteq> 0"
  shows "unat (padding_for_alignment off a) = padding (unat off) (unat a)"
proof -
  have m: "unat (off mod a) = unat off mod unat a" by (simp add: unat_mod)
  have pos: "0 < unat a" using assms by (simp add: unat_gt_0)
  have lt: "unat off mod unat a < unat a" using pos by simp
  have le: "off mod a \<le> a" using lt m by (simp add: word_le_nat_alt)
  have z: "off mod a = 0 \<longleftrightarrow> unat off mod unat a = 0"
    using m by (metis unat_eq_zero)
  show ?thesis
    using z m le by (simp add: padding_for_alignment_def padding_def Let_def unat_sub)
qed

lemma padding_less: "0 < a \<Longrightarrow> padding off a < a"
  by (simp add: padding_def)

text \<open>The comparison of the source is the one on the integers when \<^verbatim>\<open>n + pad\<close> does not wrap.\<close>

lemma fits_iff_candidate:
  assumes "a \<noteq> 0" "unat n + unat a \<le> 2 ^ 64"
  shows "n + padding_for_alignment (fst x) a \<le> snd x \<longleftrightarrow> candidate n a x"
proof -
  have "padding (unat (fst x)) (unat a) < unat a"
    using assms(1) by (simp add: padding_less unat_gt_0)
  then have "unat n + unat (padding_for_alignment (fst x) a) < 2 ^ 64"
    using assms by (simp add: unat_padding)
  then have "unat (n + padding_for_alignment (fst x) a) = unat n + unat (padding_for_alignment (fst x) a)"
    by (simp add: unat_add_lem [THEN iffD1])
  then show ?thesis
    using assms(1) by (simp add: candidate_def word_le_nat_alt unat_padding)
qed

lemma scan_freelist_result:
  assumes "a \<noteq> 0" "unat n + unat a \<le> 2 ^ 64"
  shows "fl = pre @ rest \<Longrightarrow> list_all (\<lambda>x. \<not> perfect_fit n a x) pre \<Longrightarrow> kept n a pre best \<Longrightarrow>
     (case scan_freelist n a fl (length pre) best rest of
        Inl i \<Rightarrow> first_perfect n a fl i
      | Inr r \<Rightarrow> list_all (\<lambda>x. \<not> perfect_fit n a x) fl \<and> kept n a fl r)"
proof (induction rest arbitrary: pre best)
  case Nil
  then show ?case by simp
next
  case (Cons x rest)
  note fits = fits_iff_candidate [OF assms, of x]
  show ?case
  proof (cases "perfect_fit n a x")
    case True
    then show ?thesis
      using Cons.prems by (simp add: perfect_fit_def first_perfect_def)
  next
    case np: False
    have fl: "fl = (pre @ [x]) @ rest" using Cons.prems(1) by simp
    have nperf: "list_all (\<lambda>x. \<not> perfect_fit n a x) (pre @ [x])"
      using Cons.prems(2) np by simp
    have len: "length (pre @ [x]) = Suc (length pre)" by simp
    show ?thesis
    proof (cases "candidate n a x \<and> (case best of None \<Rightarrow> True | Some b \<Rightarrow> snd (fl ! b) > snd x)")
      case True
      have "kept n a (pre @ [x]) (Some (length pre))"
      proof (cases best)
        case None
        then show ?thesis using True Cons.prems(3)
          by (auto simp: kept_def best_candidate_def list_all_iff)
      next
        case (Some b)
        then have b: "b < length pre" "best_candidate n a pre b"
          using Cons.prems(3) by (simp_all add: kept_def best_candidate_def)
        then have "fl ! b = pre ! b" using Cons.prems(1) by (simp add: nth_append)
        then have "snd x < snd (pre ! b)" using True Some by simp
        then show ?thesis using True b
          by (fastforce simp: kept_def best_candidate_def list_all_iff)
      qed
      from Cons.IH [OF fl nperf this] show ?thesis
        using np True fits by (auto simp: perfect_fit_def)
    next
      case False
      have "kept n a (pre @ [x]) best"
      proof (cases best)
        case None
        then show ?thesis using False Cons.prems(3)
          by (auto simp: kept_def)
      next
        case (Some b)
        then have b: "b < length pre" "best_candidate n a pre b"
          using Cons.prems(3) by (simp_all add: kept_def best_candidate_def)
        then have "fl ! b = pre ! b" using Cons.prems(1) by (simp add: nth_append)
        then have "candidate n a x \<longrightarrow> snd (pre ! b) \<le> snd x" using False Some by auto
        then show ?thesis using Some b
          by (auto simp: kept_def best_candidate_def nth_append)
      qed
      from Cons.IH [OF fl nperf this] show ?thesis
        using np False fits by (auto simp: perfect_fit_def)
    qed
  qed
qed





lemma first_perfect_unique:
  "first_perfect n a fl i \<Longrightarrow> first_perfect n a fl j \<Longrightarrow> i = j"
proof (rule ccontr)
  assume i: "first_perfect n a fl i" and j: "first_perfect n a fl j" and "i \<noteq> j"
  then consider "i < j" | "j < i" by linarith
  then show False
  proof cases
    case 1
    then have "fl ! i \<in> set (take j fl)"
      using j by (auto simp: first_perfect_def in_set_conv_nth intro!: exI [of _ i])
    then show False using i j by (simp add: first_perfect_def list_all_iff)
  next
    case 2
    then have "fl ! j \<in> set (take i fl)"
      using i by (auto simp: first_perfect_def in_set_conv_nth intro!: exI [of _ j])
    then show False using i j by (simp add: first_perfect_def list_all_iff)
  qed
qed

lemma best_candidate_unique:
  "best_candidate n a fl b \<Longrightarrow> best_candidate n a fl c \<Longrightarrow> b = c"
proof (rule ccontr)
  assume b: "best_candidate n a fl b" and c: "best_candidate n a fl c" and "b \<noteq> c"
  then consider "b < c" | "c < b" by linarith
  then show False
  proof cases
    case 1
    then have "fl ! b \<in> set (take c fl)"
      using c by (auto simp: best_candidate_def in_set_conv_nth intro!: exI [of _ b])
    then have "snd (fl ! c) < snd (fl ! b)"
      using b c by (simp add: best_candidate_def list_all_iff)
    moreover have "snd (fl ! b) \<le> snd (fl ! c)"
      using b c by (simp add: best_candidate_def list_all_iff)
    ultimately show False by simp
  next
    case 2
    then have "fl ! c \<in> set (take b fl)"
      using b by (auto simp: best_candidate_def in_set_conv_nth intro!: exI [of _ c])
    then have "snd (fl ! b) < snd (fl ! c)"
      using b c by (simp add: best_candidate_def list_all_iff)
    moreover have "snd (fl ! c) \<le> snd (fl ! b)"
      using b c by (simp add: best_candidate_def list_all_iff)
    ultimately show False by simp
  qed
qed

lemma scan_freelist_whole:
  assumes "a \<noteq> 0" "unat n + unat a \<le> 2 ^ 64"
  shows "case scan_freelist n a fl 0 None fl of
        Inl i \<Rightarrow> first_perfect n a fl i
      | Inr r \<Rightarrow> list_all (\<lambda>x. \<not> perfect_fit n a x) fl \<and> kept n a fl r"
  using scan_freelist_result [OF assms, of fl "[]" fl None] by (simp add: kept_def)

lemma scan_freelist_perfect:
  assumes "a \<noteq> 0" "unat n + unat a \<le> 2 ^ 64" "first_perfect n a fl i"
  shows "scan_freelist n a fl 0 None fl = Inl i"
proof (cases "scan_freelist n a fl 0 None fl")
  case (Inl j)
  then have "first_perfect n a fl j" using scan_freelist_whole [OF assms(1,2), of fl] by simp
  then show ?thesis using Inl first_perfect_unique assms(3) by blast
next
  case (Inr r)
  then have "list_all (\<lambda>x. \<not> perfect_fit n a x) fl"
    using scan_freelist_whole [OF assms(1,2), of fl] by simp
  moreover have "fl ! i \<in> set fl" "perfect_fit n a (fl ! i)"
    using assms(3) by (simp_all add: first_perfect_def)
  ultimately show ?thesis by (simp add: list_all_iff)
qed

lemma scan_freelist_best:
  assumes "a \<noteq> 0" "unat n + unat a \<le> 2 ^ 64"
    and "list_all (\<lambda>x. \<not> perfect_fit n a x) fl" "best_candidate n a fl b"
  shows "scan_freelist n a fl 0 None fl = Inr (Some b)"
proof (cases "scan_freelist n a fl 0 None fl")
  case (Inl j)
  then have "first_perfect n a fl j" using scan_freelist_whole [OF assms(1,2), of fl] by simp
  then have "fl ! j \<in> set fl" "perfect_fit n a (fl ! j)"
    by (simp_all add: first_perfect_def)
  then show ?thesis using assms(3) by (simp add: list_all_iff)
next
  case (Inr r)
  then have k: "kept n a fl r" using scan_freelist_whole [OF assms(1,2), of fl] by simp
  show ?thesis
  proof (cases r)
    case None
    then have "list_all (\<lambda>x. \<not> candidate n a x) fl" using k by (simp add: kept_def)
    moreover have "fl ! b \<in> set fl" "candidate n a (fl ! b)"
      using assms(4) by (simp_all add: best_candidate_def)
    ultimately show ?thesis by (simp add: list_all_iff)
  next
    case (Some c)
    then have "best_candidate n a fl c" using k by (simp add: kept_def)
    then show ?thesis using Inr Some best_candidate_unique assms(4) by blast
  qed
qed

lemma request_no_wrap:
  fixes num_elems elem_size poolsize :: size_t
  assumes "elem_size \<noteq> 0" "poolsize \<le> MLOCK_UPPER_BOUND"
      and "unat num_elems * unat elem_size < unat poolsize"
  shows "unat (num_elems * elem_size) + unat elem_size \<le> 2 ^ 64"
    and "(num_elems * elem_size) div elem_size = num_elems"
    and "\<not> poolsize \<le> num_elems * elem_size"
    and "unat (num_elems * elem_size) = unat num_elems * unat elem_size"
proof -
  have P: "unat poolsize \<le> 524288"
    using assms(2) by (simp add: MLOCK_UPPER_BOUND_def word_le_nat_alt)
  then have lt: "unat num_elems * unat elem_size < 2 ^ 64" using assms(3) by simp
  note nov = no_overflow_passes [OF lt assms(1)]
  show "(num_elems * elem_size) div elem_size = num_elems" by (rule nov(1))
  show "unat (num_elems * elem_size) = unat num_elems * unat elem_size" by (rule nov(2))
  show "\<not> poolsize \<le> num_elems * elem_size"
    using assms(3) nov(2) by (simp add: word_le_nat_alt)
  show "unat (num_elems * elem_size) + unat elem_size \<le> 2 ^ 64"
  proof (cases "unat num_elems = 0")
    case True
    have "unat elem_size < 2 ^ 64" using unsigned_less [of elem_size] by simp
    then show ?thesis using True nov(2) by simp
  next
    case False
    then have "unat elem_size \<le> unat num_elems * unat elem_size" by simp
    then have "unat num_elems * unat elem_size + unat elem_size < 2 * 524288"
      using assms(3) P by linarith
    then show ?thesis using nov(2) by simp
  qed
qed




lemma padding_zero_iff:
  assumes "a \<noteq> 0"
  shows "padding_for_alignment off a = 0 \<longleftrightarrow> off mod a = 0"
proof -
  have "off mod a < a" using assms by (simp add: word_mod_less_divisor word_neq_0_conv [THEN iffD1])
  then have "a - off mod a \<noteq> 0" by auto
  then show ?thesis by (simp add: padding_for_alignment_def Let_def)
qed

lemma carve_eq:
  assumes "b < length fl" and "pad = 0 \<longrightarrow> snd (fl ! b) \<noteq> n"
  shows "carve fl b n pad =
     take b fl @ (if pad = 0 then [] else [(fst (fl ! b), pad)]) @
     (if snd (fl ! b) = n + pad then [] else [(fst (fl ! b) + pad + n, snd (fl ! b) - pad - n)]) @
     drop (Suc b) fl"
proof -
  have z: "snd (fl ! b) - (n + pad) = 0 \<longleftrightarrow> snd (fl ! b) = n + pad" by simp
  have f: "fst (fl ! b) + (n + pad) = fst (fl ! b) + pad + n" by simp
  have g: "snd (fl ! b) - (n + pad) = snd (fl ! b) - pad - n" by simp
  show ?thesis
    using assms
    unfolding carve_def Let_def insert_at_def z f g
    by (auto simp: upd_conv_take_nth_drop)
qed

text \<open>
  The choice of the extent, for a call that passes the refusal checks (enabled pool of at
  most \<^verbatim>\<open>MLOCK_UPPER_BOUND\<close> bytes, \<^verbatim>\<open>elem_size > 0\<close>, no overflow, \<^verbatim>\<open>n < P\<close>). If some extent
  is a perfect fit, the first one in the list is removed, and \<^verbatim>\<open>B + off\<close> is returned when
  it passes the assertion on its alignment. If no extent is a perfect fit, the request
  is carved from the front of the candidate of smallest length (the first seen among
  equals), after the padding: the hole \<^verbatim>\<open>(off, pad)\<close> stays when \<^verbatim>\<open>pad > 0\<close>, the rest
  \<^verbatim>\<open>(off + pad + n, len - pad - n)\<close> stays when it is not empty, and \<^verbatim>\<open>B + off + pad\<close> is
  returned when it passes the assertion. In both cases the assertion comes after the
  free list is written.
\<close>

lemma allocate_choice:
  assumes "m_pool s \<noteq> 0" and "elem_size \<noteq> 0" and "m_poolsize s \<le> MLOCK_UPPER_BOUND"
      and "unat num_elems * unat elem_size < unat (m_poolsize s)"
  shows
    "(first_perfect (num_elems * elem_size) elem_size (m_freelist s) i \<longrightarrow>
        allocate s num_elems elem_size =
          (let off = fst (m_freelist s ! i); A = m_pool s + off;
               s' = s\<lparr>m_freelist := take i (m_freelist s) @ drop (Suc i) (m_freelist s),
                      mem := clear_mem (mem s) A (num_elems * elem_size)\<rparr>
           in if A mod elem_size = 0 then Inr (Some A, s')
              else Inl (Assertion_Failure, s'))) \<and>
     (list_all (\<lambda>x. \<not> perfect_fit (num_elems * elem_size) elem_size x) (m_freelist s) \<and>
      best_candidate (num_elems * elem_size) elem_size (m_freelist s) b \<longrightarrow>
        allocate s num_elems elem_size =
          (let n = num_elems * elem_size;
               off = fst (m_freelist s ! b); len = snd (m_freelist s ! b);
               pad = padding_for_alignment off elem_size;
               A = m_pool s + off + pad;
               s' = s\<lparr>m_freelist :=
                        take b (m_freelist s) @
                        (if pad = 0 then [] else [(off, pad)]) @
                        (if len = n + pad then [] else [(off + pad + n, len - pad - n)]) @
                        drop (Suc b) (m_freelist s),
                      mem := clear_mem (mem s) A n\<rparr>
           in if A mod elem_size = 0 then Inr (Some A, s')
              else Inl (Assertion_Failure, s')))"
proof (intro conjI impI)
  let ?n = "num_elems * elem_size" and ?fl = "m_freelist s"
  note rq = request_no_wrap [OF assms(2,3,4)]
  {
    assume "first_perfect ?n elem_size ?fl i"
    then have "scan_freelist ?n elem_size ?fl 0 None ?fl = Inl i"
      by (rule scan_freelist_perfect [OF assms(2) rq(1)])
    then show "allocate s num_elems elem_size =
          (let off = fst (m_freelist s ! i); A = m_pool s + off;
               s' = s\<lparr>m_freelist := take i (m_freelist s) @ drop (Suc i) (m_freelist s),
                      mem := clear_mem (mem s) A (num_elems * elem_size)\<rparr>
           in if A mod elem_size = 0 then Inr (Some A, s')
              else Inl (Assertion_Failure, s'))"
      using assms(1,2) rq(2,3)
      by (simp add: allocate_def Let_def BOTAN_ASSERT_def erase_def)
  }
  {
    assume h: "list_all (\<lambda>x. \<not> perfect_fit ?n elem_size x) ?fl \<and> best_candidate ?n elem_size ?fl b"
    then have sc: "scan_freelist ?n elem_size ?fl 0 None ?fl = Inr (Some b)"
      by (intro scan_freelist_best [OF assms(2) rq(1)]) simp_all
    have b: "b < length ?fl" using h by (simp add: best_candidate_def)
    then have "\<not> perfect_fit ?n elem_size (?fl ! b)"
      using h by (simp add: list_all_iff)
    then have "\<not> (snd (?fl ! b) = ?n \<and> fst (?fl ! b) mod elem_size = 0)"
      unfolding perfect_fit_def .
    then have "padding_for_alignment (fst (?fl ! b)) elem_size = 0 \<longrightarrow> snd (?fl ! b) \<noteq> ?n"
      unfolding padding_zero_iff [OF assms(2)] by (intro impI notI) (erule notE, erule conjI)
    note cv = carve_eq [OF b this]
    show "allocate s num_elems elem_size =
          (let n = num_elems * elem_size;
               off = fst (m_freelist s ! b); len = snd (m_freelist s ! b);
               pad = padding_for_alignment off elem_size;
               A = m_pool s + off + pad;
               s' = s\<lparr>m_freelist :=
                        take b (m_freelist s) @
                        (if pad = 0 then [] else [(off, pad)]) @
                        (if len = n + pad then [] else [(off + pad + n, len - pad - n)]) @
                        drop (Suc b) (m_freelist s),
                      mem := clear_mem (mem s) A n\<rparr>
           in if A mod elem_size = 0 then Inr (Some A, s')
              else Inl (Assertion_Failure, s'))"
      using assms(1,2) rq(2,3) sc
      by (simp add: allocate_def Let_def BOTAN_ASSERT_def cv)
  }
qed

lemma allocate_choice_examples:
  "first_perfect (32 * 1) 1 [(0, 64), (128, 32), (256, 128)] 1 \<and>
   allocate (pool_with [(0, 64), (128, 32), (256, 128)]) 32 1 =
     Inr (Some 4224, pool_with [(0, 64), (128, 32), (256, 128)]
            \<lparr>m_freelist := [(0, 64), (256, 128)],
              mem := clear_mem (mem example_pool) 4224 32\<rparr>) \<and>
   best_candidate (8 * 4) 4 [(0, 16), (17, 64), (100, 40), (200, 40)] 2 \<and>
   allocate (pool_with [(0, 16), (17, 64), (100, 40), (200, 40)]) 8 4 =
     Inr (Some 4196, pool_with [(0, 16), (17, 64), (100, 40), (200, 40)]
            \<lparr>m_freelist := [(0, 16), (17, 64), (132, 8), (200, 40)],
              mem := clear_mem (mem example_pool) 4196 32\<rparr>) \<and>
   best_candidate (1 * 8) 8 [(1, 1023)] 0 \<and>
   allocate (pool_with [(1, 1023)]) 1 8 =
     Inr (Some 4104, pool_with [(1, 1023)]
            \<lparr>m_freelist := [(1, 7), (16, 1008)],
              mem := clear_mem (mem example_pool) 4104 8\<rparr>)"
proof -
  let ?s1 = "pool_with [(0, 64), (128, 32), (256, 128)]"
  let ?s2 = "pool_with [(0, 16), (17, 64), (100, 40), (200, 40)]"
  let ?s3 = "pool_with [(1, 1023)]"
  have e: "\<And>fl. m_pool (pool_with fl) = 4096" "\<And>fl. m_poolsize (pool_with fl) = 1024"
    "\<And>fl. m_freelist (pool_with fl) = fl" "\<And>fl. mem (pool_with fl) = mem example_pool"
    by (simp_all add: pool_with_def example_pool_def)
  have h: "\<And>fl. m_pool (pool_with fl) \<noteq> 0" "\<And>fl. m_poolsize (pool_with fl) \<le> MLOCK_UPPER_BOUND"
    by (simp_all add: e MLOCK_UPPER_BOUND_def)
  have p1: "first_perfect (32 * 1) 1 (m_freelist ?s1) 1"
    by (simp add: e first_perfect_def perfect_fit_def)
  have p2: "list_all (\<lambda>x. \<not> perfect_fit (8 * 4) 4 x) (m_freelist ?s2) \<and>
      best_candidate (8 * 4) 4 (m_freelist ?s2) 2"
    by (simp add: e perfect_fit_def best_candidate_def candidate_def padding_def)
  have p3: "list_all (\<lambda>x. \<not> perfect_fit (1 * 8) 8 x) (m_freelist ?s3) \<and>
      best_candidate (1 * 8) 8 (m_freelist ?s3) 0"
    by (simp add: e perfect_fit_def best_candidate_def candidate_def padding_def)
  have a1: "allocate ?s1 32 1 = Inr (Some 4224, ?s1\<lparr>m_freelist := [(0, 64), (256, 128)],
              mem := clear_mem (mem example_pool) 4224 32\<rparr>)"
    using allocate_choice [of ?s1 1 32 1 0, OF h(1) _ h(2)] p1
    by (simp add: e)
  have a2: "allocate ?s2 8 4 = Inr (Some 4196, ?s2\<lparr>m_freelist := [(0, 16), (17, 64), (132, 8), (200, 40)],
              mem := clear_mem (mem example_pool) 4196 32\<rparr>)"
    using allocate_choice [of ?s2 4 8 0 2, OF h(1) _ h(2)] p2
    by (simp add: e padding_for_alignment_def)
  have a3: "allocate ?s3 1 8 = Inr (Some 4104, ?s3\<lparr>m_freelist := [(1, 7), (16, 1008)],
              mem := clear_mem (mem example_pool) 4104 8\<rparr>)"
    using allocate_choice [of ?s3 8 1 0 0, OF h(1) _ h(2)] p3
    by (simp add: e padding_for_alignment_def)
  show ?thesis using p1 p2 p3 a1 a2 a3 by (simp add: e)
qed

text \<open>
  C4. With the pool at \<^verbatim>\<open>B = 4096\<close> and \<^verbatim>\<open>elem_size = 3\<close>, the extent \<^verbatim>\<open>(0, 3)\<close> is the first
  perfect fit for 3 bytes: it is removed from the free list and its bytes are cleared,
  and then \<^verbatim>\<open>B + 0\<close> is not returned, because the assertion "Returning correctly aligned
  pointer" fails: the padding aligns the offset, not the address. Likewise the extent
  \<^verbatim>\<open>(0, 1024)\<close> of the fresh pool is the best candidate: the request is carved from its
  front, and no address is returned.
\<close>

theorem allocate_alignment_abort:
  "first_perfect (1 * 3) 3 (m_freelist (pool_with [(0, 3), (8, 1016)])) 0 \<and>
   allocate (pool_with [(0, 3), (8, 1016)]) 1 3 =
     Inl (Assertion_Failure,
          pool_with [(8, 1016)]\<lparr>mem := clear_mem (mem example_pool) 4096 3\<rparr>) \<and>
   list_all (\<lambda>x. \<not> perfect_fit (1 * 3) 3 x) (m_freelist example_pool) \<and>
   candidate (1 * 3) 3 (m_freelist example_pool ! 0) \<and>
   allocate example_pool 1 3 =
     Inl (Assertion_Failure,
          pool_with [(3, 1021)]\<lparr>mem := clear_mem (mem example_pool) 4096 3\<rparr>)"
  by (simp add: pool_with_def example_pool_def first_perfect_def perfect_fit_def
      candidate_def padding_def allocate_def padding_for_alignment_def
      BOTAN_ASSERT_def erase_def carve_def)

text \<open>The extent \<^verbatim>\<open>(0, 1024)\<close> is the only candidate there, and so the best one.\<close>

lemma allocate_alignment_abort_choice:
  "best_candidate (1 * 3) 3 (m_freelist example_pool) 0"
  by (simp add: example_pool_def best_candidate_def candidate_def padding_def)

section \<open>The region handed out\<close>

lemma clear_mem_zero:
  assumes "unat A \<le> unat a" "unat a < unat A + unat n"
  shows "clear_mem m A n a = 0"
proof -
  have "unat (a - A) = unat a - unat A"
    using assms(1) by (simp add: unat_sub word_le_nat_alt)
  then have "a - A < n" using assms by (simp add: word_less_nat_alt)
  then show ?thesis by (simp add: clear_mem_def)
qed

lemma handed_out:
  fixes B P off len pad n :: size_t
  assumes "unat B + unat P < 2 ^ 64" and "unat off + unat len \<le> unat P"
      and "unat n + unat pad \<le> unat len"
  shows "unat (B + off + pad) = unat B + unat off + unat pad"
proof -
  have "unat (B + off) = unat B + unat off"
    using assms by (simp add: unat_add_lem [THEN iffD1])
  then show ?thesis
    using assms by (simp add: unat_add_lem [THEN iffD1])
qed

lemma allocate_some:
  assumes "m_poolsize s \<le> MLOCK_UPPER_BOUND"
      and "allocate s num_elems elem_size = Inr (Some A, s')"
  obtains k pad where
    "k < length (m_freelist s)"
    "unat (num_elems * elem_size) + unat pad \<le> unat (snd (m_freelist s ! k))"
    "A = m_pool s + fst (m_freelist s ! k) + pad"
    "A mod elem_size = 0"
    "s' = s\<lparr>m_freelist :=
              take k (m_freelist s) @
              (if pad = 0 then [] else [(fst (m_freelist s ! k), pad)]) @
              (if snd (m_freelist s ! k) = num_elems * elem_size + pad then []
               else [(fst (m_freelist s ! k) + pad + num_elems * elem_size,
                      snd (m_freelist s ! k) - pad - num_elems * elem_size)]) @
              drop (Suc k) (m_freelist s),
            mem := clear_mem (mem s) A (num_elems * elem_size)\<rparr>"
proof -
  let ?n = "num_elems * elem_size" and ?fl = "m_freelist s" and ?B = "m_pool s" and ?P = "m_poolsize s"
  have en: "?B \<noteq> 0" and nz: "elem_size \<noteq> 0" and dv: "?n div elem_size = num_elems"
    and lt: "\<not> ?P \<le> ?n"
    using assms(2) by (auto simp: allocate_def Let_def split: if_splits)
  have P: "unat ?P \<le> 524288"
    using assms(1) by (simp add: MLOCK_UPPER_BOUND_def word_le_nat_alt)
  have nP: "unat ?n < unat ?P" using lt by (simp add: word_le_nat_alt)
  have wrap: "unat ?n + unat elem_size \<le> 2 ^ 64"
  proof (cases "num_elems = 0")
    case True
    have "unat elem_size < 2 ^ 64" using unsigned_less [of elem_size] by simp
    then show ?thesis using True by simp
  next
    case False
    have "unat num_elems = unat ?n div unat elem_size" using dv by (metis unat_div)
    moreover have "unat num_elems \<noteq> 0" using False by (simp add: unat_eq_zero)
    ultimately have "unat elem_size \<le> unat ?n"
      by (metis div_less not_le_imp_less)
    then have "unat ?n + unat elem_size < 2 * 524288" using nP P by linarith
    then show ?thesis by simp
  qed
  note sc = scan_freelist_whole [OF nz wrap, of ?fl]
  have al: "allocate s num_elems elem_size =
     (case scan_freelist ?n elem_size ?fl 0 None ?fl of
                Inl i \<Rightarrow>
                  aborted_at (s\<lparr>m_freelist := erase ?fl i,
                             mem := clear_mem (mem s) (?B + fst (?fl ! i)) ?n\<rparr>)
                    (BOTAN_ASSERT ((?B + fst (?fl ! i)) mod elem_size = 0)
                       (Inr (Some (?B + fst (?fl ! i)), s\<lparr>m_freelist := erase ?fl i,
                             mem := clear_mem (mem s) (?B + fst (?fl ! i)) ?n\<rparr>)))
              | Inr None \<Rightarrow> Inr (None, s)
              | Inr (Some b) \<Rightarrow>
                  aborted_at (s\<lparr>m_freelist := carve ?fl b ?n (padding_for_alignment (fst (?fl ! b)) elem_size),
                             mem := clear_mem (mem s) (?B + fst (?fl ! b) + padding_for_alignment (fst (?fl ! b)) elem_size) ?n\<rparr>)
                    (BOTAN_ASSERT ((?B + fst (?fl ! b) + padding_for_alignment (fst (?fl ! b)) elem_size) mod elem_size = 0)
                       (Inr (Some (?B + fst (?fl ! b) + padding_for_alignment (fst (?fl ! b)) elem_size),
                          s\<lparr>m_freelist := carve ?fl b ?n (padding_for_alignment (fst (?fl ! b)) elem_size),
                             mem := clear_mem (mem s) (?B + fst (?fl ! b) + padding_for_alignment (fst (?fl ! b)) elem_size) ?n\<rparr>))))"
    using en nz dv lt by (simp add: allocate_def Let_def split: sum.splits option.splits)
  show ?thesis
  proof (cases "scan_freelist ?n elem_size ?fl 0 None ?fl")
    case (Inl i)
    then have fp: "first_perfect ?n elem_size ?fl i" using sc by simp
    then have f: "i < length ?fl" "unat ?n + unat (0 :: size_t) \<le> unat (snd (?fl ! i))"
      by (simp_all add: first_perfect_def perfect_fit_def)
    have len: "snd (?fl ! i) = ?n" using fp by (simp add: first_perfect_def perfect_fit_def)
    have g: "A = ?B + fst (?fl ! i) + 0" "A mod elem_size = 0"
      using assms(2) Inl unfolding al by (auto simp: BOTAN_ASSERT_def split: if_splits)
    have "s' = s\<lparr>m_freelist := erase ?fl i, mem := clear_mem (mem s) A ?n\<rparr>"
      using assms(2) Inl unfolding al by (auto simp: BOTAN_ASSERT_def split: if_splits)
    then have h: "s' = s\<lparr>m_freelist :=
              take i ?fl @
              (if (0 :: size_t) = 0 then [] else [(fst (?fl ! i), 0)]) @
              (if snd (?fl ! i) = ?n + 0 then []
               else [(fst (?fl ! i) + 0 + ?n, snd (?fl ! i) - 0 - ?n)]) @
              drop (Suc i) ?fl,
            mem := clear_mem (mem s) A ?n\<rparr>"
      using len by (simp add: erase_def)
    show ?thesis by (rule that [OF f g h])
  next
    case (Inr r)
    then obtain b where r: "r = Some b"
      using assms(2) unfolding al by (cases r) auto
    let ?pad = "padding_for_alignment (fst (?fl ! b)) elem_size"
    have np: "list_all (\<lambda>x. \<not> perfect_fit ?n elem_size x) ?fl"
      and bc: "best_candidate ?n elem_size ?fl b" using sc Inr r by (simp_all add: kept_def)
    then have f: "b < length ?fl" "unat ?n + unat ?pad \<le> unat (snd (?fl ! b))"
      using nz by (simp_all add: best_candidate_def candidate_def unat_padding)
    have "\<not> perfect_fit ?n elem_size (?fl ! b)"
      using np f(1) by (simp add: list_all_iff)
    then have "\<not> (snd (?fl ! b) = ?n \<and> fst (?fl ! b) mod elem_size = 0)"
      unfolding perfect_fit_def .
    then have "?pad = 0 \<longrightarrow> snd (?fl ! b) \<noteq> ?n"
      unfolding padding_zero_iff [OF nz] by (intro impI notI) (erule notE, erule conjI)
    note cv = carve_eq [OF f(1) this]
    have g: "A = ?B + fst (?fl ! b) + ?pad" "A mod elem_size = 0"
      using assms(2) Inr r unfolding al by (auto simp: BOTAN_ASSERT_def split: if_splits)
    have "s' = s\<lparr>m_freelist := carve ?fl b ?n ?pad, mem := clear_mem (mem s) A ?n\<rparr>"
      using assms(2) Inr r unfolding al by (auto simp: BOTAN_ASSERT_def split: if_splits)
    then have h: "s' = s\<lparr>m_freelist :=
              take b ?fl @
              (if ?pad = 0 then [] else [(fst (?fl ! b), ?pad)]) @
              (if snd (?fl ! b) = ?n + ?pad then []
               else [(fst (?fl ! b) + ?pad + ?n, snd (?fl ! b) - ?pad - ?n)]) @
              drop (Suc b) ?fl,
            mem := clear_mem (mem s) A ?n\<rparr>"
      unfolding cv .
    show ?thesis by (rule that [OF f g h])
  qed
qed

text \<open>
  C5. In a pool as the constructor maps it (at most \<^verbatim>\<open>MLOCK_UPPER_BOUND\<close> bytes, not
  wrapping around the address space) whose free extents lie inside the pool, every
  address \<^verbatim>\<open>A\<close> that \<^verbatim>\<open>allocate\<close> returns for a total size \<^verbatim>\<open>n\<close> is a multiple of
  \<^verbatim>\<open>elem_size\<close>, the range \<^verbatim>\<open>[A, A+n)\<close> lies inside \<^verbatim>\<open>[B, B+P)\<close> and inside one extent of
  the free list before the call, and every byte of the range is zero after the call.
\<close>

theorem allocate_result:
  assumes "m_poolsize s \<le> MLOCK_UPPER_BOUND"
      and "unat (m_pool s) + unat (m_poolsize s) < 2 ^ 64"
      and "list_all (\<lambda>x. unat (fst x) + unat (snd x) \<le> unat (m_poolsize s)) (m_freelist s)"
      and "allocate s num_elems elem_size = Inr (Some A, s')"
  shows "A mod elem_size = 0 \<and>
         unat (m_pool s) \<le> unat A \<and>
         unat A + unat (num_elems * elem_size) \<le> unat (m_pool s) + unat (m_poolsize s) \<and>
         (\<exists>x \<in> set (m_freelist s).
             unat (m_pool s) + unat (fst x) \<le> unat A \<and>
             unat A + unat (num_elems * elem_size) \<le> unat (m_pool s) + unat (fst x) + unat (snd x)) \<and>
         (\<forall>a. unat A \<le> unat a \<and> unat a < unat A + unat (num_elems * elem_size) \<longrightarrow> mem s' a = 0)"
proof -
  let ?n = "num_elems * elem_size" and ?fl = "m_freelist s" and ?B = "m_pool s" and ?P = "m_poolsize s"
  obtain k pad where k: "k < length ?fl" and fit: "unat ?n + unat pad \<le> unat (snd (?fl ! k))"
    and A: "A = ?B + fst (?fl ! k) + pad" and al0: "A mod elem_size = 0"
    and s': "s' = s\<lparr>m_freelist :=
              take k ?fl @
              (if pad = 0 then [] else [(fst (?fl ! k), pad)]) @
              (if snd (?fl ! k) = ?n + pad then []
               else [(fst (?fl ! k) + pad + ?n, snd (?fl ! k) - pad - ?n)]) @
              drop (Suc k) ?fl,
            mem := clear_mem (mem s) A ?n\<rparr>"
    by (rule allocate_some [OF assms(1,4)])
  have m: "mem s' = clear_mem (mem s) A ?n" by (simp add: s')
  have mem: "?fl ! k \<in> set ?fl" using k by simp
  then have ext: "unat (fst (?fl ! k)) + unat (snd (?fl ! k)) \<le> unat ?P"
    using assms(3) by (simp add: list_all_iff)
  have uA: "unat A = unat ?B + unat (fst (?fl ! k)) + unat pad"
    unfolding A by (rule handed_out [OF assms(2) ext fit])
  have c1: "unat ?B \<le> unat A" using uA by simp
  have c2: "unat A + unat ?n \<le> unat ?B + unat ?P" using uA fit ext by linarith
  have c3: "\<exists>x \<in> set ?fl. unat ?B + unat (fst x) \<le> unat A \<and>
             unat A + unat ?n \<le> unat ?B + unat (fst x) + unat (snd x)"
    using mem uA fit by (intro bexI [of _ "?fl ! k"]) simp_all
  have c4: "\<forall>a. unat A \<le> unat a \<and> unat a < unat A + unat ?n \<longrightarrow> mem s' a = 0"
    unfolding m by (simp add: clear_mem_zero)
  show ?thesis using al0 c1 c2 c3 c4 by blast
qed

theorem allocate_result_witness:
  "allocate (pool_with [(1, 1023)]\<lparr>mem := (\<lambda>_. 255)\<rparr>) 1 8 =
     Inr (Some 4104, pool_with [(1, 7), (16, 1008)]\<lparr>mem := clear_mem (\<lambda>_. 255) 4104 8\<rparr>) \<and>
   (4104 :: size_t) mod 8 = 0 \<and>
   mem (pool_with [(1, 7), (16, 1008)]\<lparr>mem := clear_mem (\<lambda>_. 255) 4104 8\<rparr>) 4104 = 0 \<and>
   mem (pool_with [(1, 7), (16, 1008)]\<lparr>mem := clear_mem (\<lambda>_. 255) 4104 8\<rparr>) 4111 = 0"
proof -
  let ?s = "pool_with [(1, 1023)]\<lparr>mem := (\<lambda>_. 255)\<rparr>"
  let ?s' = "pool_with [(1, 7), (16, 1008)]\<lparr>mem := clear_mem (\<lambda>_. 255) 4104 8\<rparr>"
  have a: "allocate ?s 1 8 = Inr (Some 4104, ?s')"
    by (simp add: allocate_def pool_with_def example_pool_def padding_for_alignment_def
        BOTAN_ASSERT_def carve_def insert_at_def)
  have h: "m_poolsize ?s \<le> MLOCK_UPPER_BOUND" "unat (m_pool ?s) + unat (m_poolsize ?s) < 2 ^ 64"
    "list_all (\<lambda>x. unat (fst x) + unat (snd x) \<le> unat (m_poolsize ?s)) (m_freelist ?s)"
    by (simp_all add: pool_with_def example_pool_def MLOCK_UPPER_BOUND_def)
  from allocate_result [OF h a]
  have "(4104 :: size_t) mod 8 = 0" "mem ?s' 4104 = 0" "mem ?s' 4111 = 0"
    by simp_all
  then show ?thesis using a by simp
qed

section \<open>The canonical form is kept\<close>

lemma gap_canonical: "sorted_wrt gap fl \<Longrightarrow> canonical fl"
proof -
  assume g: "sorted_wrt gap fl"
  have lo_hi: "\<And>x. ext_lo x \<le> ext_hi x" by (simp add: ext_lo_def ext_hi_def)
  have "sorted_wrt (\<lambda>x y. fst x < fst y) fl"
  proof (rule sorted_wrt_mono_rel [OF _ g])
    fix x y assume "gap x y"
    then have "ext_lo x < ext_lo y" using lo_hi [of x] by (simp add: gap_def)
    then show "fst x < fst y" by (simp add: ext_lo_def word_less_nat_alt)
  qed
  moreover have "sorted_wrt disjoint fl"
    by (rule sorted_wrt_mono_rel [OF _ g]) (simp add: gap_def disjoint_def)
  moreover have "not_adjacent fl"
    using g by (induction fl rule: not_adjacent.induct) (auto simp: gap_def)
  ultimately show ?thesis by (simp add: canonical_def)
qed

lemma fresh_pool_inv: "fresh s \<Longrightarrow> pool_inv (s, [])"
  by (simp add: fresh_def pool_inv_def ext_hi_def)



lemma rest_bounds:
  fixes off len pad n :: size_t
  assumes "unat off + unat len < 2 ^ 64" and "unat n + unat pad \<le> unat len"
  shows "ext_lo (off + pad + n, len - pad - n) = unat off + unat pad + unat n"
    and "ext_hi (off + pad + n, len - pad - n) = unat off + unat len"
    and "len = n + pad \<longleftrightarrow> unat len = unat n + unat pad"
    and "len - pad - n = 0 \<longleftrightarrow> unat len = unat n + unat pad"
proof -
  have a1: "unat (off + pad) = unat off + unat pad"
    using assms by (simp add: unat_add_lem [THEN iffD1])
  have a2: "unat (off + pad + n) = unat off + unat pad + unat n"
    using assms a1 by (simp add: unat_add_lem [THEN iffD1])
  have s1: "unat (len - pad) = unat len - unat pad"
    using assms by (simp add: unat_sub word_le_nat_alt)
  have s2: "unat (len - pad - n) = unat len - unat pad - unat n"
    using assms s1 by (simp add: unat_sub word_le_nat_alt)
  have np: "unat (n + pad) = unat n + unat pad"
    using assms by (simp add: unat_add_lem [THEN iffD1])
  show "ext_lo (off + pad + n, len - pad - n) = unat off + unat pad + unat n"
    by (simp add: ext_lo_def a2)
  show "ext_hi (off + pad + n, len - pad - n) = unat off + unat len"
    using assms(2) by (simp add: ext_hi_def a2 s2)
  show "len = n + pad \<longleftrightarrow> unat len = unat n + unat pad"
    using np by (metis word_unat_eq_iff)
  show "len - pad - n = 0 \<longleftrightarrow> unat len = unat n + unat pad"
    using s2 assms(2) unat_eq_zero [of "len - pad - n"] by auto
qed

lemma sorted_wrt_gap_replace:
  assumes "sorted_wrt gap (xs @ x # ys)" and "sorted_wrt gap zs"
      and "\<forall>z \<in> set zs. ext_lo x \<le> ext_lo z \<and> ext_hi z \<le> ext_hi x"
  shows "sorted_wrt gap (xs @ zs @ ys)"
  using assms by (fastforce simp: sorted_wrt_append gap_def)




lemma carved_pieces:
  fixes x :: extent and pad n :: size_t
  assumes "ext_hi x < 2 ^ 64" and "unat n + unat pad \<le> unat (snd x)" and "n \<noteq> 0"
  defines "zs \<equiv> (if pad = 0 then [] else [(fst x, pad)]) @
                 (if snd x = n + pad then [] else [(fst x + pad + n, snd x - pad - n)])"
  shows "sorted_wrt gap zs"
    and "\<forall>z \<in> set zs. ext_lo x \<le> ext_lo z \<and> ext_hi z \<le> ext_hi x \<and> snd z \<noteq> 0 \<and>
            (ext_hi z \<le> ext_lo x + unat pad \<or> ext_lo x + unat pad + unat n \<le> ext_lo z)"
proof -
  have w: "unat (fst x) + unat (snd x) < 2 ^ 64" using assms(1) by (simp add: ext_hi_def)
  note rb = rest_bounds [OF w assms(2)]
  have N: "0 < unat n" using assms(3) by (simp add: unat_gt_0)
  have hole: "ext_lo (fst x, pad) = ext_lo x" "ext_hi (fst x, pad) = ext_lo x + unat pad"
    by (simp_all add: ext_lo_def ext_hi_def)
  have rest: "ext_lo (fst x + pad + n, snd x - pad - n) = ext_lo x + unat pad + unat n"
    "ext_hi (fst x + pad + n, snd x - pad - n) = ext_hi x"
    using rb(1,2) by (simp_all add: ext_lo_def ext_hi_def)
  show "sorted_wrt gap zs"
    using N by (simp add: zs_def gap_def hole rest)
  have p0: "pad \<noteq> 0 \<Longrightarrow> 0 < unat pad" by (simp add: unat_gt_0)
  have hx: "ext_hi x = ext_lo x + unat (snd x)" by (simp add: ext_lo_def ext_hi_def)
  show "\<forall>z \<in> set zs. ext_lo x \<le> ext_lo z \<and> ext_hi z \<le> ext_hi x \<and> snd z \<noteq> 0 \<and>
            (ext_hi z \<le> ext_lo x + unat pad \<or> ext_lo x + unat pad + unat n \<le> ext_lo z)"
    using assms(2) rb(3,4) hx by (auto simp: zs_def hole rest)
qed




lemma alloc_inv:
  assumes I: "pool_inv (s, live)" and nz: "num_elems * elem_size \<noteq> 0"
      and a: "allocate s num_elems elem_size = Inr (Some A, s')"
  shows "pool_inv (s', (A, num_elems * elem_size) # live)"
proof -
  let ?n = "num_elems * elem_size" and ?fl = "m_freelist s" and ?B = "m_pool s" and ?P = "m_poolsize s"
  from I have B0: "?B \<noteq> 0" and Pb: "?P \<le> MLOCK_UPPER_BOUND"
    and wrap: "unat ?B + unat ?P < 2 ^ 64" and sg: "sorted_wrt gap ?fl"
    and fr: "\<forall>x \<in> set ?fl. snd x \<noteq> 0 \<and> ext_hi x \<le> unat ?P"
    and lv: "\<forall>r \<in> set live. snd r \<noteq> 0 \<and> unat ?B \<le> unat (fst r) \<and>
          unat (fst r) + unat (snd r) \<le> unat ?B + unat ?P \<and> (\<forall>x \<in> set ?fl. apart ?B r x)"
    and la: "sorted_wrt regions_apart live"
    by (simp_all add: pool_inv_def Let_def)
  obtain k pad where k: "k < length ?fl"
    and fit: "unat ?n + unat pad \<le> unat (snd (?fl ! k))"
    and A: "A = ?B + fst (?fl ! k) + pad"
    and al0: "A mod elem_size = 0"
    and s': "s' = s\<lparr>m_freelist :=
              take k ?fl @
              (if pad = 0 then [] else [(fst (?fl ! k), pad)]) @
              (if snd (?fl ! k) = ?n + pad then []
               else [(fst (?fl ! k) + pad + ?n, snd (?fl ! k) - pad - ?n)]) @
              drop (Suc k) ?fl,
            mem := clear_mem (mem s) A ?n\<rparr>"
    by (rule allocate_some [OF Pb a])
  define x where "x = ?fl ! k"
  define xs where "xs = take k ?fl"
  define ys where "ys = drop (Suc k) ?fl"
  define zs where "zs = (if pad = 0 then [] else [(fst x, pad)]) @
                 (if snd x = ?n + pad then [] else [(fst x + pad + ?n, snd x - pad - ?n)])"
  have fl: "?fl = xs @ x # ys"
    using k by (simp add: x_def xs_def ys_def id_take_nth_drop [symmetric])
  have fl': "m_freelist s' = xs @ zs @ ys" and B': "m_pool s' = ?B" and P': "m_poolsize s' = ?P"
    by (simp_all add: s' x_def xs_def ys_def zs_def)
  have xin: "x \<in> set ?fl" using fl by simp
  then have hx: "ext_hi x \<le> unat ?P" using fr by simp
  then have hx64: "ext_hi x < 2 ^ 64" using wrap by simp
  have fit': "unat ?n + unat pad \<le> unat (snd x)" using fit by (simp add: x_def)
  have zg: "sorted_wrt gap zs"
    unfolding zs_def by (rule carved_pieces(1) [OF hx64 fit' nz])
  have zb: "\<forall>z \<in> set zs. ext_lo x \<le> ext_lo z \<and> ext_hi z \<le> ext_hi x \<and> snd z \<noteq> 0 \<and>
            (ext_hi z \<le> ext_lo x + unat pad \<or> ext_lo x + unat pad + unat ?n \<le> ext_lo z)"
    unfolding zs_def by (rule carved_pieces(2) [OF hx64 fit' nz])
  have ext: "unat (fst x) + unat (snd x) \<le> unat ?P" using hx by (simp add: ext_hi_def)
  have uA: "unat A = unat ?B + ext_lo x + unat pad"
    unfolding A x_def [symmetric] ext_lo_def by (rule handed_out [OF wrap ext fit'])
  have hxe: "ext_hi x = ext_lo x + unat (snd x)" by (simp add: ext_lo_def ext_hi_def)
  have c1: "sorted_wrt gap (xs @ zs @ ys)"
    using sg zg zb unfolding fl by (intro sorted_wrt_gap_replace [of xs x ys zs]) auto
  have c2: "\<forall>y \<in> set (xs @ zs @ ys). snd y \<noteq> 0 \<and> ext_hi y \<le> unat ?P"
    using fr zb hx unfolding fl by fastforce
  have others: "\<forall>y \<in> set xs \<union> set ys. ext_hi y < ext_lo x \<or> ext_hi x < ext_lo y"
    using sg unfolding fl by (auto simp: sorted_wrt_append gap_def)
  have new_apart: "\<forall>y \<in> set (xs @ zs @ ys). apart ?B (A, ?n) y"
  proof
    fix y assume "y \<in> set (xs @ zs @ ys)"
    then consider "y \<in> set zs" | "y \<in> set xs \<union> set ys" by auto
    then show "apart ?B (A, ?n) y"
    proof cases
      case 1
      then show ?thesis using zb uA by (auto simp: apart_def)
    next
      case 2
      then have "ext_hi y < ext_lo x \<or> ext_hi x < ext_lo y" using others by blast
      then show ?thesis using uA fit' hxe by (auto simp: apart_def)
    qed
  qed
  have old_apart: "\<forall>r \<in> set live. \<forall>y \<in> set (xs @ zs @ ys). apart ?B r y"
  proof (intro ballI)
    fix r y assume r: "r \<in> set live" and "y \<in> set (xs @ zs @ ys)"
    then consider "y \<in> set zs" | "y \<in> set ?fl" unfolding fl by auto
    then show "apart ?B r y"
    proof cases
      case 1
      have "apart ?B r x" using lv r xin by blast
      then show ?thesis using zb 1 by (fastforce simp: apart_def)
    next
      case 2
      then show ?thesis using lv r by blast
    qed
  qed
  have new_live: "?n \<noteq> 0 \<and> unat ?B \<le> unat A \<and> unat A + unat ?n \<le> unat ?B + unat ?P"
    using nz uA fit' hx hxe by simp
  have new_old: "\<forall>r \<in> set live. regions_apart (A, ?n) r"
  proof
    fix r assume r: "r \<in> set live"
    then have "apart ?B r x" using lv xin by blast
    then show "regions_apart (A, ?n) r"
      using uA fit' hxe by (auto simp: apart_def regions_apart_def)
  qed
  show ?thesis
    unfolding pool_inv_def Let_def fst_conv snd_conv fl' B' P'
    using B0 Pb wrap c1 c2 lv la new_apart old_apart new_live new_old
    by simp
qed




lemma coalesce_lists:
  assumes "n \<noteq> 0" and "lower_bound (xs @ ys) start = length xs"
  shows "coalesce (xs @ ys) start n = Inr
     (if ys \<noteq> [] \<and> start + n = fst (hd ys)
      then (if xs \<noteq> [] \<and> fst (last xs) + snd (last xs) = start
            then butlast xs @ (fst (last xs), snd (last xs) + (snd (hd ys) + n)) # tl ys
            else xs @ (start, snd (hd ys) + n) # tl ys)
      else (if xs \<noteq> [] \<and> fst (last xs) + snd (last xs) = start
            then butlast xs @ (fst (last xs), snd (last xs) + n) # ys
            else xs @ (start, n) # ys))"
proof (cases xs rule: rev_cases)
  case Nil
  then show ?thesis
    using assms by (cases ys)
      (auto simp: coalesce_def merge_later_def merge_previous_def insert_at_def Let_def)
next
  case (snoc xs' pv)
  show ?thesis
  proof (cases ys)
    case Nil
    then show ?thesis
      using assms snoc
      by (auto simp: coalesce_def merge_later_def merge_previous_def insert_at_def Let_def
          nth_append)
  next
    case (Cons y ys')
    then show ?thesis
      using assms snoc
      by (auto simp: coalesce_def merge_later_def merge_previous_def insert_at_def erase_def
          Let_def nth_append list_update_append)
  qed
qed

lemma lower_bound_split:
  "lower_bound fl start = length (takeWhile (\<lambda>x. fst x < start) fl)"
  "fl = takeWhile (\<lambda>x. fst x < start) fl @ dropWhile (\<lambda>x. fst x < start) fl"
  by (simp_all add: lower_bound_def)




lemma unat_plus:
  fixes a b :: size_t
  shows "unat a + unat b < 2 ^ 64 \<Longrightarrow> unat (a + b) = unat a + unat b"
  by (simp add: unat_add_lem [THEN iffD1])

lemma sorted_wrt_remove1: "sorted_wrt R xs \<Longrightarrow> sorted_wrt R (remove1 x xs)"
proof (induction xs)
  case Nil
  then show ?case by simp
next
  case (Cons a xs)
  then show ?case using notin_set_remove1 [of _ xs x] by auto
qed

lemma regions_apart_sym: "regions_apart r r' \<Longrightarrow> regions_apart r' r"
  by (auto simp: regions_apart_def)

lemma remove1_apart:
  assumes "sorted_wrt regions_apart live" and "r \<in> set live" and "r' \<in> set (remove1 r live)"
  shows "regions_apart r' r"
proof -
  obtain l1 l2 where l: "live = l1 @ r # l2" "r \<notin> set l1"
    using split_list_first [OF assms(2)] by blast
  then have "remove1 r live = l1 @ l2" by (simp add: remove1_append)
  then consider "r' \<in> set l1" | "r' \<in> set l2" using assms(3) by auto
  then show ?thesis
    using assms(1) l(1) by cases (auto simp: sorted_wrt_append intro: regions_apart_sym)
qed

lemma sorted_wrt_gap_mid:
  assumes "sorted_wrt gap xs" and "sorted_wrt gap ys"
      and "\<forall>x \<in> set xs. ext_hi x < ext_lo e" and "\<forall>y \<in> set ys. ext_hi e < ext_lo y"
  shows "sorted_wrt gap (xs @ e # ys)"
proof -
  have "ext_lo e \<le> ext_hi e" by (simp add: ext_lo_def ext_hi_def)
  then show ?thesis
    using assms by (fastforce simp: sorted_wrt_append gap_def)
qed




lemma coalesce_inv:
  fixes fl :: "extent list" and start n P :: size_t
  assumes sg: "sorted_wrt gap fl"
      and fr: "\<forall>x \<in> set fl. snd x \<noteq> 0 \<and> ext_hi x \<le> unat P"
      and n0: "n \<noteq> 0"
      and reg: "unat start + unat n \<le> unat P"
      and ap: "\<forall>x \<in> set fl. unat start + unat n \<le> ext_lo x \<or> ext_hi x \<le> unat start"
  obtains fl' where "coalesce fl start n = Inr fl'"
    and "sorted_wrt gap fl'"
    and "\<forall>x \<in> set fl'. snd x \<noteq> 0 \<and> ext_hi x \<le> unat P"
    and "\<forall>a m. 0 < m \<longrightarrow> (\<forall>x \<in> set fl. a + m \<le> ext_lo x \<or> ext_hi x \<le> a) \<longrightarrow>
            (a + m \<le> unat start \<or> unat start + unat n \<le> a) \<longrightarrow>
            (\<forall>x \<in> set fl'. a + m \<le> ext_lo x \<or> ext_hi x \<le> a)"
proof -
  define xs where "xs = takeWhile (\<lambda>x. fst x < start) fl"
  define ys where "ys = dropWhile (\<lambda>x. fst x < start) fl"
  define S where "S = unat start"
  define N where "N = unat n"
  have fl: "fl = xs @ ys" by (simp add: xs_def ys_def)
  have lb: "lower_bound (xs @ ys) start = length xs"
    unfolding fl [symmetric] by (simp add: lower_bound_def xs_def)
  have P64: "unat P < 2 ^ 64" using unsigned_less [of P] by simp
  have N0: "0 < N" using n0 by (simp add: N_def unat_gt_0)
  have lohi: "\<And>x. ext_lo x \<le> ext_hi x" by (simp add: ext_lo_def ext_hi_def)
  have pos: "\<And>x. x \<in> set fl \<Longrightarrow> ext_lo x < ext_hi x"
    using fr by (auto simp: ext_lo_def ext_hi_def unat_gt_0)
  have sgx: "sorted_wrt gap xs" and sgy: "sorted_wrt gap ys"
    and cross: "\<forall>x \<in> set xs. \<forall>y \<in> set ys. gap x y"
    using sg unfolding fl by (simp_all add: sorted_wrt_append)
  have X_le: "\<forall>x \<in> set xs. ext_hi x \<le> S"
  proof
    fix x assume x: "x \<in> set xs"
    then have "fst x < start" unfolding xs_def by (auto dest: set_takeWhileD)
    then have "ext_lo x < S" by (simp add: ext_lo_def S_def word_less_nat_alt)
    moreover have "x \<in> set fl" using x fl by simp
    ultimately show "ext_hi x \<le> S" using ap N0 unfolding S_def N_def by fastforce
  qed
  have Y_ge: "\<forall>y \<in> set ys. S \<le> ext_lo y"
  proof (cases ys)
    case Nil
    then show ?thesis by simp
  next
    case (Cons y0 ys')
    have "\<not> fst (hd ys) < start"
      unfolding ys_def by (rule hd_dropWhile) (use Cons ys_def in simp)
    then have h: "S \<le> ext_lo y0" using Cons by (simp add: ext_lo_def S_def word_less_nat_alt)
    have "\<forall>y \<in> set ys'. ext_hi y0 < ext_lo y" using sgy Cons by (simp add: gap_def)
    then show ?thesis using h lohi [of y0] Cons by fastforce
  qed
  have Y_le: "\<forall>y \<in> set ys. S + N \<le> ext_lo y"
  proof
    fix y assume y: "y \<in> set ys"
    then have "y \<in> set fl" using fl by simp
    then have "unat start + unat n \<le> ext_lo y \<or> ext_hi y \<le> unat start" "ext_lo y < ext_hi y"
      using ap pos by blast+
    then show "S + N \<le> ext_lo y" using Y_ge y unfolding S_def N_def by fastforce
  qed
  have X_lt: "\<forall>x \<in> set xs. ext_hi x < S" if "\<not> (xs \<noteq> [] \<and> ext_hi (last xs) = S)"
  proof (cases xs rule: rev_cases)
    case Nil
    then show ?thesis by simp
  next
    case (snoc xs' pv)
    then have "ext_hi pv < S" using that X_le by fastforce
    moreover have "\<forall>x \<in> set xs'. ext_hi x < ext_lo pv"
      using sgx snoc by (simp add: sorted_wrt_append gap_def)
    ultimately show ?thesis using snoc lohi [of pv] by fastforce
  qed
  have Y_lt: "\<forall>y \<in> set ys. S + N < ext_lo y" if "\<not> (ys \<noteq> [] \<and> ext_lo (hd ys) = S + N)"
  proof (cases ys)
    case Nil
    then show ?thesis by simp
  next
    case (Cons y0 ys')
    then have "S + N < ext_lo y0" using that Y_le by fastforce
    moreover have "\<forall>y \<in> set ys'. ext_hi y0 < ext_lo y" using sgy Cons by (simp add: gap_def)
    ultimately show ?thesis using Cons lohi [of y0] by fastforce
  qed
  have sn: "unat (start + n) = S + N"
    unfolding S_def N_def using reg P64 by (intro unat_plus) simp
  have e1: "\<And>y. start + n = fst y \<longleftrightarrow> ext_lo y = S + N"
    using sn by (metis ext_lo_def word_unat_eq_iff)
  have e2: "\<And>x. x \<in> set fl \<Longrightarrow> fst x + snd x = start \<longleftrightarrow> ext_hi x = S"
  proof -
    fix x assume "x \<in> set fl"
    then have "ext_hi x \<le> unat P" using fr by simp
    then have "unat (fst x + snd x) = ext_hi x"
      unfolding ext_hi_def using P64 by (intro unat_plus) simp
    then show "fst x + snd x = start \<longleftrightarrow> ext_hi x = S"
      unfolding S_def by (metis word_unat_eq_iff)
  qed
  have plusP: "\<And>a b :: size_t. unat a + unat b \<le> unat P \<Longrightarrow> unat (a + b) = unat a + unat b"
    using P64 by (intro unat_plus) simp
  note res = coalesce_lists [OF n0 lb, folded fl]
  note result = that
  have gen: thesis
    if c_res: "coalesce fl start n = Inr (xs' @ e # ys')"
      and c_xs: "sorted_wrt gap xs'" "set xs' \<subseteq> set fl"
      and c_ys: "sorted_wrt gap ys'" "set ys' \<subseteq> set fl"
      and c_lo: "\<forall>x \<in> set xs'. ext_hi x < ext_lo e"
      and c_hi: "\<forall>y \<in> set ys'. ext_hi e < ext_lo y"
      and c_e: "snd e \<noteq> 0" "ext_hi e \<le> unat P"
      and c_cov: "\<And>a m. 0 < m \<Longrightarrow> \<forall>x \<in> set fl. a + m \<le> ext_lo x \<or> ext_hi x \<le> a \<Longrightarrow>
            a + m \<le> S \<or> S + N \<le> a \<Longrightarrow> a + m \<le> ext_lo e \<or> ext_hi e \<le> a"
    for xs' e ys'
  proof (rule result [OF c_res])
    show "sorted_wrt gap (xs' @ e # ys')"
      by (rule sorted_wrt_gap_mid [OF c_xs(1) c_ys(1) c_lo c_hi])
    show "\<forall>x \<in> set (xs' @ e # ys'). snd x \<noteq> 0 \<and> ext_hi x \<le> unat P"
      using fr c_xs(2) c_ys(2) c_e by auto
    have "\<forall>x \<in> set (xs' @ e # ys'). a + m \<le> ext_lo x \<or> ext_hi x \<le> a"
      if "0 < m" "\<forall>x \<in> set fl. a + m \<le> ext_lo x \<or> ext_hi x \<le> a"
        "a + m \<le> unat start \<or> unat start + unat n \<le> a" for a m
      using c_cov [of m a] that c_xs(2) c_ys(2) unfolding S_def N_def by auto
    then show "\<forall>a m. 0 < m \<longrightarrow> (\<forall>x \<in> set fl. a + m \<le> ext_lo x \<or> ext_hi x \<le> a) \<longrightarrow>
            (a + m \<le> unat start \<or> unat start + unat n \<le> a) \<longrightarrow>
            (\<forall>x \<in> set (xs' @ e # ys'). a + m \<le> ext_lo x \<or> ext_hi x \<le> a)"
      by blast
  qed
  show ?thesis
  proof (cases "ys \<noteq> [] \<and> start + n = fst (hd ys)")
    case later: True
    then obtain y0 ys' where ys: "ys = y0 # ys'" by (cases ys) auto
    have y0: "y0 \<in> set fl" "ext_lo y0 = S + N" "ext_hi y0 \<le> unat P"
      using later fr fl ys e1 [of y0] by auto
    have len_y0: "S + N + unat (snd y0) = ext_hi y0" using y0(2) by (simp add: ext_lo_def ext_hi_def)
    have yn: "unat (snd y0 + n) = unat (snd y0) + N"
      unfolding N_def using y0(3) len_y0 by (intro plusP) (simp add: N_def)
    have ys'_gap: "\<forall>y \<in> set ys'. ext_hi y0 < ext_lo y" using sgy ys by (simp add: gap_def)
    have sgy': "sorted_wrt gap ys'" "set ys' \<subseteq> set fl" using sgy ys fl by auto
    show ?thesis
    proof (cases "xs \<noteq> [] \<and> fst (last xs) + snd (last xs) = start")
      case prev: True
      then obtain xs' pv where xs: "xs = xs' @ [pv]" by (cases xs rule: rev_cases) auto
      have pv: "pv \<in> set fl" "ext_hi pv = S"
        using prev fl xs e2 [of pv] by auto
      define e where "e = (fst pv, snd pv + (snd y0 + n))"
      have "unat (snd pv) + unat (snd y0 + n) \<le> unat P"
        using pv(2) y0(3) len_y0 yn by (simp add: ext_hi_def)
      then have "unat (snd pv + (snd y0 + n)) = unat (snd pv) + unat (snd y0 + n)" by (rule plusP)
      then have e: "ext_lo e = ext_lo pv" "ext_hi e = ext_hi y0" "0 < unat (snd e)"
        using yn pv(2) len_y0 N0 by (simp_all add: e_def ext_lo_def ext_hi_def)
      have r: "coalesce fl start n = Inr (xs' @ e # ys')"
        using res later prev xs ys by (simp add: e_def)
      show ?thesis
      proof (rule gen [OF r _ _ sgy'])
        show "sorted_wrt gap xs'" "set xs' \<subseteq> set fl"
          using sgx xs fl by (auto simp: sorted_wrt_append)
        show "\<forall>x \<in> set xs'. ext_hi x < ext_lo e"
          using sgx xs e(1) by (simp add: sorted_wrt_append gap_def)
        show "\<forall>y \<in> set ys'. ext_hi e < ext_lo y" using ys'_gap e(2) by simp
        show "snd e \<noteq> 0" using e(3) by (simp add: unat_gt_0)
        show "ext_hi e \<le> unat P" using e(2) y0(3) by simp
        show "a + m \<le> ext_lo e \<or> ext_hi e \<le> a"
          if "0 < m" "\<forall>x \<in> set fl. a + m \<le> ext_lo x \<or> ext_hi x \<le> a" "a + m \<le> S \<or> S + N \<le> a"
          for a m
          using that(1,3) that(2) [rule_format, OF pv(1)] that(2) [rule_format, OF y0(1)]
            pv(2) y0(2) e(1,2) by linarith
      qed
    next
      case noprev: False
      then have np: "\<not> (xs \<noteq> [] \<and> ext_hi (last xs) = S)"
        using e2 [of "last xs"] fl by auto
      define e where "e = (start, snd y0 + n)"
      have e: "ext_lo e = S" "ext_hi e = ext_hi y0" "0 < unat (snd e)"
        using yn len_y0 N0 by (simp_all add: e_def ext_lo_def ext_hi_def S_def)
      have r: "coalesce fl start n = Inr (xs @ e # ys')"
        using res later noprev ys by (simp add: e_def)
      show ?thesis
      proof (rule gen [OF r _ _ sgy'])
        show "sorted_wrt gap xs" "set xs \<subseteq> set fl" using sgx fl by auto
        show "\<forall>x \<in> set xs. ext_hi x < ext_lo e" using X_lt [OF np] e(1) by simp
        show "\<forall>y \<in> set ys'. ext_hi e < ext_lo y" using ys'_gap e(2) by simp
        show "snd e \<noteq> 0" using e(3) by (simp add: unat_gt_0)
        show "ext_hi e \<le> unat P" using e(2) y0(3) by simp
        show "a + m \<le> ext_lo e \<or> ext_hi e \<le> a"
          if "0 < m" "\<forall>x \<in> set fl. a + m \<le> ext_lo x \<or> ext_hi x \<le> a" "a + m \<le> S \<or> S + N \<le> a"
          for a m
          using that(1,3) that(2) [rule_format, OF y0(1)] y0(2) e(1,2) by linarith
      qed
    qed
  next
    case nolater: False
    then have nl: "\<not> (ys \<noteq> [] \<and> ext_lo (hd ys) = S + N)"
      using e1 [of "hd ys"] by auto
    have sgy': "sorted_wrt gap ys" "set ys \<subseteq> set fl" using sgy fl by auto
    show ?thesis
    proof (cases "xs \<noteq> [] \<and> fst (last xs) + snd (last xs) = start")
      case prev: True
      then obtain xs' pv where xs: "xs = xs' @ [pv]" by (cases xs rule: rev_cases) auto
      have pv: "pv \<in> set fl" "ext_hi pv = S"
        using prev fl xs e2 [of pv] by auto
      define e where "e = (fst pv, snd pv + n)"
      have "unat (snd pv) + unat n \<le> unat P"
        using pv(2) reg by (simp add: ext_hi_def S_def)
      then have "unat (snd pv + n) = unat (snd pv) + unat n" by (rule plusP)
      then have e: "ext_lo e = ext_lo pv" "ext_hi e = S + N" "0 < unat (snd e)"
        using pv(2) N0 by (simp_all add: e_def ext_lo_def ext_hi_def N_def)
      have r: "coalesce fl start n = Inr (xs' @ e # ys)"
        using res nolater prev xs by (simp add: e_def)
      show ?thesis
      proof (rule gen [OF r _ _ sgy'])
        show "sorted_wrt gap xs'" "set xs' \<subseteq> set fl"
          using sgx xs fl by (auto simp: sorted_wrt_append)
        show "\<forall>x \<in> set xs'. ext_hi x < ext_lo e"
          using sgx xs e(1) by (simp add: sorted_wrt_append gap_def)
        show "\<forall>y \<in> set ys. ext_hi e < ext_lo y" using Y_lt [OF nl] e(2) by simp
        show "snd e \<noteq> 0" using e(3) by (simp add: unat_gt_0)
        show "ext_hi e \<le> unat P" using e(2) reg by (simp add: S_def N_def)
        show "a + m \<le> ext_lo e \<or> ext_hi e \<le> a"
          if "0 < m" "\<forall>x \<in> set fl. a + m \<le> ext_lo x \<or> ext_hi x \<le> a" "a + m \<le> S \<or> S + N \<le> a"
          for a m
          using that(1,3) that(2) [rule_format, OF pv(1)] pv(2) e(1,2) by linarith
      qed
    next
      case noprev: False
      then have np: "\<not> (xs \<noteq> [] \<and> ext_hi (last xs) = S)"
        using e2 [of "last xs"] fl by auto
      define e where "e = (start, n)"
      have e: "ext_lo e = S" "ext_hi e = S + N" "0 < unat (snd e)"
        using N0 by (simp_all add: e_def ext_lo_def ext_hi_def S_def N_def)
      have r: "coalesce fl start n = Inr (xs @ e # ys)"
        using res nolater noprev by (simp add: e_def)
      show ?thesis
      proof (rule gen [OF r _ _ sgy'])
        show "sorted_wrt gap xs" "set xs \<subseteq> set fl" using sgx fl by auto
        show "\<forall>x \<in> set xs. ext_hi x < ext_lo e" using X_lt [OF np] e(1) by simp
        show "\<forall>y \<in> set ys. ext_hi e < ext_lo y" using Y_lt [OF nl] e(2) by simp
        show "snd e \<noteq> 0" using e(3) by (simp add: unat_gt_0)
        show "ext_hi e \<le> unat P" using e(2) reg by (simp add: S_def N_def)
        show "a + m \<le> ext_lo e \<or> ext_hi e \<le> a"
          if "0 < m" "\<forall>x \<in> set fl. a + m \<le> ext_lo x \<or> ext_hi x \<le> a" "a + m \<le> S \<or> S + N \<le> a"
          for a m
          using that(3) e(1,2) by linarith
      qed
    qed
  qed
qed




lemma dealloc_inv:
  assumes I: "pool_inv (s, live)" and r: "(p, num_elems * elem_size) \<in> set live"
      and d: "deallocate s p num_elems elem_size = Inr (b, s')"
  shows "b \<and> pool_inv (s', remove1 (p, num_elems * elem_size) live)"
proof -
  let ?n = "num_elems * elem_size" and ?fl = "m_freelist s" and ?B = "m_pool s" and ?P = "m_poolsize s"
  let ?start = "p - ?B"
  from I have B0: "?B \<noteq> 0" and Pb: "?P \<le> MLOCK_UPPER_BOUND"
    and wrap: "unat ?B + unat ?P < 2 ^ 64" and sg: "sorted_wrt gap ?fl"
    and fr: "\<forall>x \<in> set ?fl. snd x \<noteq> 0 \<and> ext_hi x \<le> unat ?P"
    and lv: "\<forall>r \<in> set live. snd r \<noteq> 0 \<and> unat ?B \<le> unat (fst r) \<and>
          unat (fst r) + unat (snd r) \<le> unat ?B + unat ?P \<and> (\<forall>x \<in> set ?fl. apart ?B r x)"
    and la: "sorted_wrt regions_apart live"
    by (simp_all add: pool_inv_def Let_def)
  have n0: "?n \<noteq> 0" and lo: "unat ?B \<le> unat p" and hi: "unat p + unat ?n \<le> unat ?B + unat ?P"
    and rap: "\<forall>x \<in> set ?fl. apart ?B (p, ?n) x"
    using lv [rule_format, OF r] by simp_all
  have N0: "0 < unat ?n" using n0 by (simp add: unat_gt_0)
  have st: "unat ?start = unat p - unat ?B"
    using lo by (simp add: unat_sub word_le_nat_alt)
  have reg: "unat ?start + unat ?n \<le> unat ?P" using st lo hi by simp
  have ap: "\<forall>x \<in> set ?fl. unat ?start + unat ?n \<le> ext_lo x \<or> ext_hi x \<le> unat ?start"
    using rap st lo by (auto simp: apart_def)
  obtain fl' where co: "coalesce ?fl ?start ?n = Inr fl'"
    and sg': "sorted_wrt gap fl'"
    and fr': "\<forall>x \<in> set fl'. snd x \<noteq> 0 \<and> ext_hi x \<le> unat ?P"
    and cov: "\<forall>a m. 0 < m \<longrightarrow> (\<forall>x \<in> set ?fl. a + m \<le> ext_lo x \<or> ext_hi x \<le> a) \<longrightarrow>
            (a + m \<le> unat ?start \<or> unat ?start + unat ?n \<le> a) \<longrightarrow>
            (\<forall>x \<in> set fl'. a + m \<le> ext_lo x \<or> ext_hi x \<le> a)"
    by (rule coalesce_inv [OF sg fr n0 reg ap])
  have pin: "ptr_in_pool ?B ?P p ?n = Inr True"
    using lo hi N0 by (intro ptr_in_pool_inside [OF wrap]) simp_all
  have "elem_size \<noteq> 0 \<and> ?n div elem_size = num_elems"
  proof -
    have "elem_size \<noteq> 0" using d B0 by (auto simp: deallocate_def Let_def)
    moreover have "?n div elem_size = num_elems"
      using d B0 \<open>elem_size \<noteq> 0\<close>
      by (simp add: deallocate_def Let_def BOTAN_ASSERT_def split: if_splits)
    ultimately show ?thesis by simp
  qed
  then have "deallocate s p num_elems elem_size = Inr (True, s\<lparr>m_freelist := fl'\<rparr>)"
    using B0 pin co by (simp add: deallocate_def Let_def BOTAN_ASSERT_def)
  then have b: "b" and s': "s' = s\<lparr>m_freelist := fl'\<rparr>" using d by simp_all
  have sub: "set (remove1 (p, ?n) live) \<subseteq> set live" by (rule set_remove1_subset)
  have live': "\<forall>r' \<in> set (remove1 (p, ?n) live). snd r' \<noteq> 0 \<and> unat ?B \<le> unat (fst r') \<and>
          unat (fst r') + unat (snd r') \<le> unat ?B + unat ?P \<and> (\<forall>x \<in> set fl'. apart ?B r' x)"
  proof
    fix r' assume r': "r' \<in> set (remove1 (p, ?n) live)"
    then have in_live: "r' \<in> set live" using sub by blast
    then have old: "snd r' \<noteq> 0" "unat ?B \<le> unat (fst r')"
      "unat (fst r') + unat (snd r') \<le> unat ?B + unat ?P" "\<forall>x \<in> set ?fl. apart ?B r' x"
      using lv by blast+
    have m0: "0 < unat (snd r')" using old(1) by (simp add: unat_gt_0)
    have "regions_apart r' (p, ?n)" by (rule remove1_apart [OF la r r'])
    then have h1: "(unat (fst r') - unat ?B) + unat (snd r') \<le> unat ?start \<or>
        unat ?start + unat ?n \<le> unat (fst r') - unat ?B"
      using st lo old(2) by (auto simp: regions_apart_def)
    have h2: "\<forall>x \<in> set ?fl. (unat (fst r') - unat ?B) + unat (snd r') \<le> ext_lo x \<or>
        ext_hi x \<le> unat (fst r') - unat ?B"
      using old(4) old(2) by (auto simp: apart_def)
    have "\<forall>x \<in> set fl'. (unat (fst r') - unat ?B) + unat (snd r') \<le> ext_lo x \<or>
        ext_hi x \<le> unat (fst r') - unat ?B"
      using cov m0 h2 h1 by blast
    then have "\<forall>x \<in> set fl'. apart ?B r' x"
      using old(2) by (auto simp: apart_def)
    then show "snd r' \<noteq> 0 \<and> unat ?B \<le> unat (fst r') \<and>
          unat (fst r') + unat (snd r') \<le> unat ?B + unat ?P \<and> (\<forall>x \<in> set fl'. apart ?B r' x)"
      using old by blast
  qed
  have "pool_inv (s', remove1 (p, ?n) live)"
    unfolding pool_inv_def Let_def fst_conv snd_conv s'
    using B0 Pb wrap sg' fr' live' sorted_wrt_remove1 [OF la]
    by simp
  then show ?thesis using b by simp
qed

lemma allocate_null:
  "allocate s num_elems elem_size = Inr (None, s') \<Longrightarrow> s' = s"
  by (auto simp: allocate_def Let_def BOTAN_ASSERT_def
      split: if_splits sum.splits option.splits)

lemma step_inv:
  assumes "pool_inv c" and "proper x (snd c)" and "step x c = Inr c'"
  shows "pool_inv c'"
proof (cases c)
  case (Pair s live)
  show ?thesis
  proof (cases x)
    case (Allocate num_elems elem_size)
    show ?thesis
    proof (cases "allocate s num_elems elem_size")
      case (Inl e)
      then show ?thesis using assms(3) Pair Allocate by simp
    next
      case (Inr res)
      obtain a s' where res: "res = (a, s')" by (cases res)
      show ?thesis
      proof (cases a)
        case None
        then have "s' = s" using Inr res allocate_null by blast
        then show ?thesis using assms(1,3) Pair Allocate Inr res None by simp
      next
        case (Some A)
        have "pool_inv (s', (A, num_elems * elem_size) # live)"
          using assms(1,2) Pair Allocate Inr res Some by (intro alloc_inv [of s]) simp_all
        then show ?thesis using assms(3) Pair Allocate Inr res Some by simp
      qed
    qed
  next
    case (Deallocate p num_elems elem_size)
    show ?thesis
    proof (cases "deallocate s p num_elems elem_size")
      case (Inl e)
      then show ?thesis using assms(3) Pair Deallocate by simp
    next
      case (Inr res)
      obtain b s' where res: "res = (b, s')" by (cases res)
      have "b \<and> pool_inv (s', remove1 (p, num_elems * elem_size) live)"
        using assms(1,2) Pair Deallocate Inr res by (intro dealloc_inv [of s]) simp_all
      then show ?thesis using assms(3) Pair Deallocate Inr res by simp
    qed
  qed
qed




lemma run_Cons_Inr: "step x c = Inr c1 \<Longrightarrow> run (x # xs) c = run xs c1"
  by simp

lemma run_Cons_Inl: "step x c = Inl e \<Longrightarrow> run (x # xs) c = Inl e"
  by simp

lemma proper_run_Cons:
  "proper_run (x # xs) c \<Longrightarrow> step x c = Inr c1 \<Longrightarrow> proper x (snd c) \<and> proper_run xs c1"
  by simp

lemma run_inv:
  "pool_inv c \<Longrightarrow> proper_run xs c \<Longrightarrow> run xs c = Inr c' \<Longrightarrow> pool_inv c'"
proof (induction xs arbitrary: c)
  case Nil
  then show ?case by simp
next
  case (Cons x xs)
  show ?case
  proof (cases "step x c")
    case (Inl e)
    then show ?thesis using Cons.prems(3) run_Cons_Inl [of x c e xs] by simp
  next
    case (Inr c1)
    have p: "proper x (snd c)" "proper_run xs c1"
      using proper_run_Cons [OF Cons.prems(2) Inr] by simp_all
    have "pool_inv c1" by (rule step_inv [OF Cons.prems(1) p(1) Inr])
    moreover have "run xs c1 = Inr c'"
      using Cons.prems(3) run_Cons_Inr [OF Inr, of xs] by simp
    ultimately show ?thesis using p(2) by (intro Cons.IH [of c1])
  qed
qed

text \<open>
  C3 (as amended). Starting from the initial free list \<^verbatim>\<open>[(0, P)]\<close> of an enabled pool,
  after any sequence of calls in which every request has a total size above 0 and every
  \<^verbatim>\<open>deallocate\<close> releases a region that an earlier \<^verbatim>\<open>allocate\<close> returned and that has not
  been released since, the free list is sorted strictly by offset, its extents are
  pairwise disjoint, and no two consecutive extents are adjacent.
\<close>

theorem canonical_after_run:
  assumes "fresh s0" and "proper_run calls (s0, [])" and "run calls (s0, []) = Inr (s, live)"
  shows "canonical (m_freelist s)"
proof -
  have "pool_inv (s, live)"
    using fresh_pool_inv [OF assms(1)] assms(2,3) by (rule run_inv)
  then have "sorted_wrt gap (m_freelist s)" by (simp add: pool_inv_def Let_def)
  then show ?thesis by (rule gap_canonical)
qed

lemmas eval_defs = allocate_def deallocate_def coalesce_def example_pool_def
      padding_for_alignment_def BOTAN_ASSERT_def carve_def ptr_in_pool_def insert_at_def
      lower_bound_def merge_later_def merge_previous_def erase_def

lemma run_three_blocks:
  "\<exists>s. run three_blocks (example_pool, []) = Inr (s, []) \<and> m_freelist s = [(0, 1024)]"
  by (simp add: three_blocks_def eval_defs)

lemma proper_three_blocks: "proper_run three_blocks (example_pool, [])"
  by (simp add: three_blocks_def eval_defs)

theorem canonical_after_run_witness:
  "fresh example_pool \<and> proper_run three_blocks (example_pool, []) \<and>
   (\<exists>s. run three_blocks (example_pool, []) = Inr (s, []) \<and> m_freelist s = [(0, 1024)] \<and>
        canonical (m_freelist s))"
proof -
  have f: "fresh example_pool" by (simp add: fresh_def example_pool_def MLOCK_UPPER_BOUND_def)
  obtain s where r: "run three_blocks (example_pool, []) = Inr (s, [])"
    and fl: "m_freelist s = [(0, 1024)]"
    using run_three_blocks by blast
  have "canonical (m_freelist s)"
    by (rule canonical_after_run [OF f proper_three_blocks r])
  then show ?thesis using f proper_three_blocks r fl by blast
qed

text \<open>
  The claim as first stated fails. A second release of the same region inserts it beside
  the extent that already covers it; and a request of zero bytes with an alignment of 8
  splits \<^verbatim>\<open>(1, 1023)\<close> into the adjacent extents \<^verbatim>\<open>(1, 7)\<close> and \<^verbatim>\<open>(8, 1016)\<close>.
\<close>

theorem canonical_after_run_counterexample:
  "\<not> isl (run [Allocate 1 1, Deallocate 4096 1 1, Deallocate 4096 1 1] (example_pool, [])) \<and>
   m_freelist (fst (projr
     (run [Allocate 1 1, Deallocate 4096 1 1, Deallocate 4096 1 1] (example_pool, [])))) =
     [(0, 1), (0, 1024)] \<and>
   \<not> canonical [(0, 1), (0, 1024)] \<and>
   \<not> isl (run [Allocate 1 1, Allocate 0 8] (example_pool, [])) \<and>
   m_freelist (fst (projr (run [Allocate 1 1, Allocate 0 8] (example_pool, [])))) =
     [(1, 7), (8, 1016)] \<and>
   \<not> canonical [(1, 7), (8, 1016)]"
  by (simp add: eval_defs canonical_def ext_lo_def ext_hi_def word_le_nat_alt)

section \<open>Round trips\<close>

text \<open>
  For a request of at least one byte the round trip holds: in a state that satisfies the
  invariant, releasing the region just returned gives back the free list as it was
  before the allocation.
\<close>

lemma lower_bound_append:
  assumes "\<forall>x \<in> set xs. fst x < start" and "ys = [] \<or> \<not> fst (hd ys) < start"
  shows "lower_bound (xs @ ys) start = length xs"
proof -
  have "takeWhile (\<lambda>x. fst x < start) ys = []"
    using assms(2) by (cases ys) auto
  then show ?thesis
    using assms(1) by (simp add: lower_bound_def takeWhile_append2)
qed

lemma round_trip_nonzero:
  assumes I: "pool_inv (s, live)" and nz: "num_elems * elem_size \<noteq> 0"
      and a: "allocate s num_elems elem_size = Inr (Some A, s')"
  shows "deallocate s' A num_elems elem_size = Inr (True, s'\<lparr>m_freelist := m_freelist s\<rparr>)"
proof -
  let ?n = "num_elems * elem_size" and ?fl = "m_freelist s" and ?B = "m_pool s" and ?P = "m_poolsize s"
  from I have B0: "?B \<noteq> 0" and Pb: "?P \<le> MLOCK_UPPER_BOUND"
    and wrap: "unat ?B + unat ?P < 2 ^ 64" and sg: "sorted_wrt gap ?fl"
    and fr: "\<forall>x \<in> set ?fl. snd x \<noteq> 0 \<and> ext_hi x \<le> unat ?P"
    by (simp_all add: pool_inv_def Let_def)
  have ez: "elem_size \<noteq> 0" and dv: "?n div elem_size = num_elems"
    using a by (auto simp: allocate_def Let_def split: if_splits)
  obtain k pad where k: "k < length ?fl"
    and fit: "unat ?n + unat pad \<le> unat (snd (?fl ! k))"
    and A: "A = ?B + fst (?fl ! k) + pad"
    and al0: "A mod elem_size = 0"
    and s': "s' = s\<lparr>m_freelist :=
              take k ?fl @
              (if pad = 0 then [] else [(fst (?fl ! k), pad)]) @
              (if snd (?fl ! k) = ?n + pad then []
               else [(fst (?fl ! k) + pad + ?n, snd (?fl ! k) - pad - ?n)]) @
              drop (Suc k) ?fl,
            mem := clear_mem (mem s) A ?n\<rparr>"
    by (rule allocate_some [OF Pb a])
  define x where "x = ?fl ! k"
  define xs where "xs = take k ?fl"
  define ys where "ys = drop (Suc k) ?fl"
  define hole where "hole = (if pad = 0 then [] else [(fst x, pad)])"
  define rest where "rest = (if snd x = ?n + pad then [] else [(fst x + pad + ?n, snd x - pad - ?n)])"
  define start where "start = fst x + pad"
  have fl: "?fl = xs @ x # ys"
    using k by (simp add: x_def xs_def ys_def id_take_nth_drop [symmetric])
  have fl': "m_freelist s' = (xs @ hole) @ (rest @ ys)" and B': "m_pool s' = ?B" and P': "m_poolsize s' = ?P"
    by (simp_all add: s' x_def xs_def ys_def hole_def rest_def)
  have st: "A - ?B = start" by (simp add: A start_def x_def)
  have xin: "x \<in> set ?fl" using fl by simp
  then have hx: "ext_hi x \<le> unat ?P" and lx: "snd x \<noteq> 0" using fr by simp_all
  have P64: "unat ?P < 2 ^ 64" using unsigned_less [of ?P] by simp
  have fit': "unat ?n + unat pad \<le> unat (snd x)" using fit by (simp add: x_def)
  have ext: "unat (fst x) + unat (snd x) \<le> unat ?P" using hx by (simp add: ext_hi_def)
  have w: "unat (fst x) + unat (snd x) < 2 ^ 64" using ext P64 by simp
  note rb = rest_bounds [OF w fit']
  have N0: "0 < unat ?n" using nz by (simp add: unat_gt_0)
  have uS: "unat start = ext_lo x + unat pad"
    unfolding start_def ext_lo_def using ext fit' P64 by (intro unat_plus) simp
  have uSn: "unat (start + ?n) = ext_lo x + unat pad + unat ?n"
    using uS ext fit' P64 unat_plus [of start ?n] by (simp add: ext_lo_def)
  have uA: "unat A = unat ?B + ext_lo x + unat pad"
    unfolding A x_def [symmetric] ext_lo_def by (rule handed_out [OF wrap ext fit'])
  have hxe: "ext_hi x = ext_lo x + unat (snd x)" by (simp add: ext_lo_def ext_hi_def)
  have pin: "ptr_in_pool ?B ?P A ?n = Inr True"
    using uA fit' hx hxe N0 by (intro ptr_in_pool_inside [OF wrap]) simp_all
  have before: "\<forall>y \<in> set xs. ext_hi y < ext_lo x" and after: "\<forall>y \<in> set ys. ext_hi x < ext_lo y"
    using sg unfolding fl by (auto simp: sorted_wrt_append gap_def)
  have lohi: "\<And>y. ext_lo y \<le> ext_hi y" by (simp add: ext_lo_def ext_hi_def)
  have lt_start: "\<And>y. ext_lo y < unat start \<Longrightarrow> fst y < start"
    by (simp add: ext_lo_def word_less_nat_alt)
  have ge_start: "\<And>y. unat start \<le> ext_lo y \<Longrightarrow> \<not> fst y < start"
    by (simp add: ext_lo_def word_less_nat_alt)
  have p0: "pad \<noteq> 0 \<Longrightarrow> 0 < unat pad" by (simp add: unat_gt_0)
  have lb: "lower_bound ((xs @ hole) @ (rest @ ys)) start = length (xs @ hole)"
  proof (rule lower_bound_append)
    show "\<forall>y \<in> set (xs @ hole). fst y < start"
    proof
      fix y assume "y \<in> set (xs @ hole)"
      then consider "y \<in> set xs" | "pad \<noteq> 0" "y = (fst x, pad)"
        by (auto simp: hole_def split: if_splits)
      then show "fst y < start"
      proof cases
        case 1
        then have "ext_lo y < unat start" using before lohi [of y] uS by fastforce
        then show ?thesis by (rule lt_start)
      next
        case 2
        then have "ext_lo y < unat start" using uS p0 by (simp add: ext_lo_def)
        then show ?thesis by (rule lt_start)
      qed
    qed
    show "rest @ ys = [] \<or> \<not> fst (hd (rest @ ys)) < start"
    proof (cases "rest = []")
      case True
      show ?thesis
      proof (cases ys)
        case Nil
        then show ?thesis using True by simp
      next
        case (Cons y ys')
        then have "ext_hi x < ext_lo y" using after by simp
        then have "unat start \<le> ext_lo y" using uS fit' hxe by simp
        then show ?thesis using True Cons ge_start by simp
      qed
    next
      case False
      then have "hd (rest @ ys) = (fst x + pad + ?n, snd x - pad - ?n)"
        by (auto simp: rest_def split: if_splits)
      moreover have "unat start \<le> ext_lo (fst x + pad + ?n, snd x - pad - ?n)"
        using rb(1) uS by (simp add: ext_lo_def)
      then have "\<not> fst (fst x + pad + ?n, snd x - pad - ?n) < start" by (rule ge_start)
      ultimately show ?thesis by simp
    qed
  qed
  define L where "L \<longleftrightarrow> rest @ ys \<noteq> [] \<and> start + ?n = fst (hd (rest @ ys))"
  define V where
    "V \<longleftrightarrow> xs @ hole \<noteq> [] \<and> fst (last (xs @ hole)) + snd (last (xs @ hole)) = start"
  have res: "coalesce (m_freelist s') start ?n = Inr
     (if L
      then (if V
            then butlast (xs @ hole) @
                 (fst (last (xs @ hole)),
                  snd (last (xs @ hole)) + (snd (hd (rest @ ys)) + ?n)) # tl (rest @ ys)
            else (xs @ hole) @ (start, snd (hd (rest @ ys)) + ?n) # tl (rest @ ys))
      else (if V
            then butlast (xs @ hole) @
                 (fst (last (xs @ hole)), snd (last (xs @ hole)) + ?n) # (rest @ ys)
            else (xs @ hole) @ (start, ?n) # (rest @ ys)))"
    unfolding fl' L_def V_def by (rule coalesce_lists [OF nz lb])
  have L: "L \<longleftrightarrow> rest \<noteq> []"
  proof (cases "rest = []")
    case True
    have "start + ?n \<noteq> fst (hd ys)" if "ys \<noteq> []"
    proof -
      have "hd ys \<in> set ys" using that by simp
      then have "ext_hi x < ext_lo (hd ys)" using after by blast
      moreover have "unat (start + ?n) \<le> ext_hi x" using uSn fit' hxe by simp
      ultimately show ?thesis by (auto simp: ext_lo_def)
    qed
    then show ?thesis using True by (auto simp: L_def)
  next
    case False
    then have "hd (rest @ ys) = (fst x + pad + ?n, snd x - pad - ?n)"
      by (auto simp: rest_def split: if_splits)
    then show ?thesis using False by (simp add: L_def start_def)
  qed
  have V: "V \<longleftrightarrow> hole \<noteq> []"
  proof (cases "hole = []")
    case True
    have "fst (last xs) + snd (last xs) \<noteq> start" if "xs \<noteq> []"
    proof -
      have l: "last xs \<in> set xs" using that by simp
      then have "last xs \<in> set ?fl" using fl by simp
      then have "ext_hi (last xs) \<le> unat ?P" using fr by blast
      then have "unat (fst (last xs) + snd (last xs)) = ext_hi (last xs)"
        unfolding ext_hi_def using P64 by (intro unat_plus) simp
      moreover have "ext_hi (last xs) < unat start" using before l uS by fastforce
      ultimately show ?thesis by auto
    qed
    then show ?thesis using True by (auto simp: V_def)
  next
    case False
    then have "last (xs @ hole) = (fst x, pad)" by (auto simp: hole_def split: if_splits)
    then show ?thesis using False by (simp add: V_def start_def)
  qed
  have "coalesce (m_freelist s') start ?n = Inr ?fl"
  proof (cases "rest = []")
    case r0: True
    then have len: "snd x = ?n + pad" by (auto simp: rest_def split: if_splits)
    show ?thesis
    proof (cases "hole = []")
      case True
      then have "pad = 0" by (auto simp: hole_def split: if_splits)
      then have "(start, ?n) = x" using len by (simp add: start_def prod_eq_iff)
      then show ?thesis
        unfolding res L V using r0 True fl by simp
    next
      case False
      then have h: "hole = [(fst x, pad)]" by (auto simp: hole_def split: if_splits)
      have "(fst x, pad + ?n) = x" using len by (simp add: prod_eq_iff add.commute)
      then show ?thesis
        unfolding res L V using r0 h fl by simp
    qed
  next
    case r1: False
    then have r: "rest = [(fst x + pad + ?n, snd x - pad - ?n)]"
      by (auto simp: rest_def split: if_splits)
    show ?thesis
    proof (cases "hole = []")
      case True
      then have "pad = 0" by (auto simp: hole_def split: if_splits)
      then have "(start, snd x - pad - ?n + ?n) = x" by (simp add: start_def prod_eq_iff)
      then show ?thesis
        unfolding res L V using r True fl by simp
    next
      case False
      then have h: "hole = [(fst x, pad)]" by (auto simp: hole_def split: if_splits)
      have "(fst x, pad + (snd x - pad - ?n + ?n)) = x" by (simp add: prod_eq_iff)
      then show ?thesis
        unfolding res L V using r h fl by simp
    qed
  qed
  then show ?thesis
    using B0 ez dv pin st by (simp add: deallocate_def Let_def BOTAN_ASSERT_def B' P')
qed

text \<open>
  C2 at a request of zero bytes. From the free list \<^verbatim>\<open>[(1, 7), (16, 1008)]\<close> (the bytes
  \<^verbatim>\<open>[8, 16)\<close> are allocated), \<^verbatim>\<open>allocate(0, 8)\<close> returns \<^verbatim>\<open>B + 8\<close> and leaves the free
  list as it is; \<^verbatim>\<open>deallocate(B + 8, 0, 8)\<close> then returns \<^verbatim>\<open>true\<close> and takes the branch
  "merge adjoining" with \<^verbatim>\<open>n == 0\<close>, although no merge with the later block took place:
  the free list becomes \<^verbatim>\<open>[(1, 1015)]\<close>, not the list before the allocation.
\<close>

theorem zero_size_round_trip:
  "allocate (pool_with [(1, 7), (16, 1008)]) 0 8 = Inr (Some 4104, pool_with [(1, 7), (16, 1008)]) \<and>
   deallocate (pool_with [(1, 7), (16, 1008)]) 4104 0 8 = Inr (True, pool_with [(1, 1015)])"
  by (simp add: allocate_def deallocate_def pool_with_def example_pool_def
      padding_for_alignment_def BOTAN_ASSERT_def carve_def clear_mem_def ptr_in_pool_def
      coalesce_def lower_bound_def merge_later_def merge_previous_def erase_def)

text \<open>
  The state above is reached from the fresh pool by two requests, and after the round trip
  of zero bytes the free list covers the 8 bytes at 4104 that the client still holds.
\<close>

lemma zero_size_round_trip_reached:
  "\<not> isl (run [Allocate 1 1, Allocate 1 8] (example_pool, [])) \<and>
   m_freelist (fst (projr (run [Allocate 1 1, Allocate 1 8] (example_pool, [])))) =
     [(1, 7), (16, 1008)] \<and>
   \<not> isl (run [Allocate 1 1, Allocate 1 8, Allocate 0 8, Deallocate 4104 0 8]
     (example_pool, [])) \<and>
   m_freelist (fst (projr (run [Allocate 1 1, Allocate 1 8, Allocate 0 8, Deallocate 4104 0 8]
     (example_pool, [])))) = [(1, 1015)] \<and>
   snd (projr (run [Allocate 1 1, Allocate 1 8, Allocate 0 8, Deallocate 4104 0 8]
     (example_pool, []))) = [(4104, 8), (4096, 1)]"
  by (simp add: eval_defs word_le_nat_alt)

end
